theory Spec2Isabelle
  imports Complex_Main
begin

section \<open>The roulette mini app: a shallow embedding of \<^verbatim>\<open>mini_app/static/script.js\<close>\<close>

text \<open>
  The client script draws a wheel of prize segments, asks the server for a prize
  (\<^verbatim>\<open>POST /api/spin\<close>), animates the wheel so that the prize's segment stops under a fixed
  pointer, shows the result and reports it to the hosting chat application.

  Conventions of the embedding:
  \<^item> JavaScript numbers that hold angles are modelled as real numbers with exact arithmetic
    (\<^verbatim>\<open>Math.PI\<close> is \<open>pi\<close>); the rounding of IEEE doubles is not modelled.
    Millisecond clock readings (\<^verbatim>\<open>Date.now()\<close>) and prize amounts are integers; a
    JavaScript number holds an integer exactly up to \<^verbatim>\<open>Number.MAX_SAFE_INTEGER\<close>, and only
    for those does the model render the number as text.
  \<^item> A value that may be \<^verbatim>\<open>undefined\<close> (a missing JSON field, an array read out of
    range) is an \<open>option\<close>, \<open>None\<close> standing for \<^verbatim>\<open>undefined\<close>.
  \<^item> The module-level variables and the DOM elements the script touches are the fields of
    the record \<open>client\<close>; every function takes the state and returns the new one.
  \<^item> Calls to the host (alerts, haptic feedback, the HTTP request, the animation-frame and
    timer requests, \<^verbatim>\<open>sendData\<close>, \<^verbatim>\<open>close\<close>) are appended to the \<open>trace\<close>.
  \<^item> The asynchronous parts (the awaited response, animation frames, the timer) are
    callbacks that the host runs later; the record \<open>system\<close> holds what is pending and
    \<open>step\<close> runs one callback.

  Left out: the start-up code (\<open>init\<close>, \<open>checkCanSpin\<close>), and of the drawing the pixels
  themselves (coordinates, strokes, fonts, the centre circle); of each segment the model
  keeps the fill colour, the two bounding angles, the direction of the label and its text.
\<close>

subsection \<open>Configuration\<close>

definition PRIZES :: "int list" where
  "PRIZES = [5000, 10000, 15000, 20000, 25000, 30000]"

definition COLORS :: "string list" where
  "COLORS = [''#FF6B6B'', ''#4ECDC4'', ''#45B7D1'', ''#FFA07A'', ''#98D8C8'', ''#F39C12'']"

definition duration :: real where
  "duration = 4000"

subsection \<open>JavaScript primitives\<close>

datatype js_error = TypeError

text \<open>Array read \<^verbatim>\<open>xs[i]\<close>: \<^verbatim>\<open>undefined\<close> out of range.\<close>

definition js_nth :: "'a list \<Rightarrow> nat \<Rightarrow> 'a option" where
  "js_nth xs i = (if i < length xs then Some (xs ! i) else None)"

text \<open>\<^verbatim>\<open>xs.indexOf(x)\<close>: the first position holding \<open>x\<close>, or \<open>-1\<close>.\<close>

fun indexOf_from :: "'a list \<Rightarrow> 'a \<Rightarrow> int \<Rightarrow> int" where
  "indexOf_from [] x i = - 1"
| "indexOf_from (y # ys) x i = (if y = x then i else indexOf_from ys x (i + 1))"

definition indexOf :: "'a list \<Rightarrow> 'a \<Rightarrow> int" where
  "indexOf xs x = indexOf_from xs x 0"

text \<open>
  The remainder operator \<^verbatim>\<open>a % b\<close> on numbers: \<open>a - b * trunc (a / b)\<close>, truncating towards
  zero, so the result has the sign of \<open>a\<close>. (For \<open>b = 0\<close> JavaScript gives NaN; the script
  only divides by \<open>2 * pi\<close>.)
\<close>

definition js_trunc :: "real \<Rightarrow> int" where
  "js_trunc x = (if 0 \<le> x then \<lfloor>x\<rfloor> else \<lceil>x\<rceil>)"

definition js_rem :: "real \<Rightarrow> real \<Rightarrow> real" where
  "js_rem a b = a - b * of_int (js_trunc (a / b))"

text \<open>The plain decimal numeral of an integer: its digits, after a minus sign if negative.\<close>

definition digit_char :: "nat \<Rightarrow> char" where
  "digit_char d = ''0123456789'' ! d"

fun decimal :: "nat \<Rightarrow> string" where
  "decimal n = (if 10 \<le> n then decimal (n div 10) @ [digit_char (n mod 10)] else [digit_char n])"

definition number_string :: "int \<Rightarrow> string" where
  "number_string i = (if 0 \<le> i then decimal (nat i) else CHR ''-'' # decimal (nat (- i)))"

text \<open>
  A number as \<^verbatim>\<open>JSON.stringify\<close> prints it. An integer of magnitude at most
  \<^verbatim>\<open>Number.MAX_SAFE_INTEGER\<close>, which is \<open>2 ^ 53 - 1\<close>, is held exactly and printed as its plain
  decimal numeral. A larger value is rounded to a double when the response is parsed, and
  from \<open>10 ^ 21\<close> on it is printed with an exponent; the model does not render such a number:
  \<open>None\<close> stands for a text that is left open.
\<close>

definition MAX_SAFE_INTEGER :: int where
  "MAX_SAFE_INTEGER = 9007199254740991"

definition JSON_number :: "int \<Rightarrow> string option" where
  "JSON_number i =
     (if - MAX_SAFE_INTEGER \<le> i \<and> i \<le> MAX_SAFE_INTEGER then Some (number_string i) else None)"

text \<open>
  \<^verbatim>\<open>JSON.stringify({ prize: prize })\<close>: a property whose value is \<^verbatim>\<open>undefined\<close> is left
  out of the object.
\<close>

definition stringify_prize :: "int option \<Rightarrow> string option" where
  "stringify_prize prize =
     (case prize of
        None \<Rightarrow> Some ''{}''
      | Some p \<Rightarrow>
          (case JSON_number p of
             None \<Rightarrow> None
           | Some digits \<Rightarrow>
               Some ([CHR ''{'', CHR 0x22] @ ''prize'' @ [CHR 0x22, CHR '':''] @ digits @ ''}'')))"

subsection \<open>The host and the client state\<close>

text \<open>
  What the script reads from its host: the user id of \<^verbatim>\<open>tg.initDataUnsafe?.user?.id\<close>,
  whether \<^verbatim>\<open>tg.HapticFeedback\<close> exists, and the locale formatting of numbers
  (\<^verbatim>\<open>toLocaleString('ru-RU')\<close>, which depends on the browser's locale data).
\<close>

record host =
  user_id :: "int option"
  hapticFeedback :: bool
  toLocaleString :: "int \<Rightarrow> string"

text \<open>
  The texts of the three alerts are Russian string literals; they are named here.
  \<open>AlertError e\<close> is \<^verbatim>\<open>'...: ' + (data.error || '...')\<close>, with \<open>None\<close> for the default text.
  \<open>SendData\<close> carries the text handed to \<^verbatim>\<open>tg.sendData\<close>, as \<open>stringify_prize\<close> gives it.
\<close>

datatype message = AlertNoUserId | AlertError "string option" | AlertConnection

datatype effect =
    HapticImpact
  | HapticNotification
  | FetchSpin int
  | Alert message
  | ConsoleError
  | RequestFrame
  | ShowResult "int option"
  | SetTimeout nat "int option"
  | SendData "string option"
  | Close
  | Uncaught js_error

record segment =
  seg_fillStyle :: "string option"
  seg_startAngle :: real
  seg_endAngle :: real
  seg_textAngle :: real
  seg_label :: string

record client =
  currentAngle :: real
  isSpinning :: bool
  animationId :: "nat option"
  canvas_wheel :: "segment list"
  canvas_spinning :: bool
  canvas_dimmed :: bool
  spinBtn_disabled :: bool
  spinBtn_hidden :: bool
  loading_hidden :: bool
  result_hidden :: bool
  resultPrize_text :: string
  alreadySpun_hidden :: bool
  alreadySpunPrize_text :: string
  trace :: "effect list"

definition emit :: "effect list \<Rightarrow> client \<Rightarrow> client" where
  "emit es s = s\<lparr>trace := trace s @ es\<rparr>"

text \<open>The state when the script has been loaded: the module-level initialisers.\<close>

definition initial_client :: client where
  "initial_client =
     \<lparr>currentAngle = 0, isSpinning = False, animationId = None,
      canvas_wheel = [], canvas_spinning = False, canvas_dimmed = False,
      spinBtn_disabled = False, spinBtn_hidden = False, loading_hidden = True,
      result_hidden = True, resultPrize_text = [], alreadySpun_hidden = True,
      alreadySpunPrize_text = [], trace = []\<rparr>"

subsection \<open>formatPrize and drawWheel\<close>

text \<open>
  The template literal of \<open>formatPrize\<close>: the number formatted by
  \<^verbatim>\<open>amount.toLocaleString('ru-RU')\<close>, a space and the rouble sign (U+20BD, here its three
  UTF-8 bytes). Calling a method on \<^verbatim>\<open>undefined\<close> throws a TypeError.
\<close>

definition formatPrize :: "host \<Rightarrow> int option \<Rightarrow> js_error + string" where
  "formatPrize h amount =
     (case amount of
        None \<Rightarrow> Inl TypeError
      | Some n \<Rightarrow> Inr (toLocaleString h n @ [CHR '' '', CHR 0xE2, CHR 0x82, CHR 0xBD]))"

text \<open>
  One turn of the loop of \<open>drawWheel\<close>: the segment \<open>i\<close> is filled with \<^verbatim>\<open>COLORS[i]\<close> from
  \<open>angle\<close> to \<open>angle + arc\<close>, and its label \<^verbatim>\<open>formatPrize(PRIZES[i])\<close> is written along the
  direction \<open>angle + arc / 2\<close>.
\<close>

definition draw_segment :: "host \<Rightarrow> real \<Rightarrow> real \<Rightarrow> nat \<Rightarrow> js_error + segment" where
  "draw_segment h rotation arc i =
     (let angle = rotation + real i * arc
      in case formatPrize h (js_nth PRIZES i) of
           Inl e \<Rightarrow> Inl e
         | Inr label \<Rightarrow>
             Inr \<lparr>seg_fillStyle = js_nth COLORS i, seg_startAngle = angle,
                  seg_endAngle = angle + arc, seg_textAngle = angle + arc / 2,
                  seg_label = label\<rparr>)"

fun draw_loop :: "host \<Rightarrow> real \<Rightarrow> real \<Rightarrow> nat list \<Rightarrow> js_error + segment list" where
  "draw_loop h rotation arc [] = Inr []"
| "draw_loop h rotation arc (i # is) =
     (case draw_segment h rotation arc i of
        Inl e \<Rightarrow> Inl e
      | Inr sg \<Rightarrow>
          (case draw_loop h rotation arc is of
             Inl e \<Rightarrow> Inl e
           | Inr sgs \<Rightarrow> Inr (sg # sgs)))"

definition drawWheel :: "host \<Rightarrow> real \<Rightarrow> js_error + segment list" where
  "drawWheel h rotation =
     (let segments = length PRIZES;
          arc = (2 * pi) / real segments
      in draw_loop h rotation arc [0..<segments])"

subsection \<open>animateSpin\<close>

text \<open>The locals of \<open>animateSpin\<close>, as functions of \<open>targetIndex\<close>.\<close>

definition segmentCenterAngle :: "int \<Rightarrow> real" where
  "segmentCenterAngle targetIndex =
     (let arc = (2 * pi) / real (length PRIZES);
          segmentStartAngle = of_int targetIndex * arc
      in segmentStartAngle + (arc / 2))"

definition targetAngle :: "int \<Rightarrow> real" where
  "targetAngle targetIndex =
     (let pointerAngle = - pi / 2
      in pointerAngle - segmentCenterAngle targetIndex)"

definition normalizedTargetAngle :: "int \<Rightarrow> real" where
  "normalizedTargetAngle targetIndex =
     js_rem (js_rem (targetAngle targetIndex) (2 * pi) + 2 * pi) (2 * pi)"

definition totalRotation :: "int \<Rightarrow> real" where
  "totalRotation targetIndex =
     (let fullRotations = 5
      in (fullRotations * 2 * pi) + normalizedTargetAngle targetIndex)"

text \<open>
  The closure \<open>animate\<close> that \<open>animateSpin\<close> hands to \<^verbatim>\<open>requestAnimationFrame\<close>: the
  variables it captures.
\<close>

record animation =
  anim_targetPrize :: "int option"
  anim_totalRotation :: real
  anim_startTime :: int

text \<open>What a callback leaves scheduled at the host when it returns.\<close>

datatype scheduled = NextFrame | Timeout "int option" | Idle

text \<open>
  \<^verbatim>\<open>animationId = requestAnimationFrame(animate)\<close>: the handle is the number of the
  request.
\<close>

definition requestAnimationFrame :: "client \<Rightarrow> client" where
  "requestAnimationFrame s =
     (let s1 = emit [RequestFrame] s
      in s1\<lparr>animationId := Some (length (filter (\<lambda>e. e = RequestFrame) (trace s1)))\<rparr>)"

text \<open>\<open>animateSpin targetPrize now\<close>, where \<open>now\<close> is the reading of \<^verbatim>\<open>Date.now()\<close>.\<close>

definition animateSpin :: "int option \<Rightarrow> int \<Rightarrow> client \<Rightarrow> client \<times> animation" where
  "animateSpin targetPrize now s =
     (let targetIndex = indexOf (map Some PRIZES) targetPrize;
          a = \<lparr>anim_targetPrize = targetPrize,
               anim_totalRotation = totalRotation targetIndex,
               anim_startTime = now\<rparr>;
          s1 = s\<lparr>canvas_spinning := True\<rparr>
      in (requestAnimationFrame s1, a))"

subsection \<open>showResult and its timer\<close>

text \<open>
  \<open>showResult\<close> returns the state and the exception it threw, if any. The call itself is
  recorded in the trace. On success a timer of 3000 ms is set.
\<close>

definition showResult :: "host \<Rightarrow> int option \<Rightarrow> client \<Rightarrow> client \<times> js_error option" where
  "showResult h prize s =
     (let s0 = emit [ShowResult prize] s
      in case formatPrize h prize of
           Inl e \<Rightarrow> (s0, Some e)
         | Inr txt \<Rightarrow>
             (emit [SetTimeout 3000 prize]
                (s0\<lparr>resultPrize_text := txt, result_hidden := False\<rparr>), None))"

text \<open>
  The timer's callback. Whether \<^verbatim>\<open>tg.sendData\<close> and \<^verbatim>\<open>tg.close\<close> throw is the host's
  choice: \<open>sendOk\<close> and \<open>closeOk\<close>.
\<close>

definition timer_callback :: "bool \<Rightarrow> bool \<Rightarrow> int option \<Rightarrow> client \<Rightarrow> client" where
  "timer_callback sendOk closeOk prize s =
     (let data = stringify_prize prize
      in if \<not> sendOk then (emit [ConsoleError] s)\<lparr>result_hidden := True\<rparr>
         else
           let s1 = emit [SendData data] s
           in if \<not> closeOk then (emit [ConsoleError] s1)\<lparr>result_hidden := True\<rparr>
              else emit [Close] s1)"

subsection \<open>One animation frame\<close>

definition progress_at :: "animation \<Rightarrow> int \<Rightarrow> real" where
  "progress_at a now =
     (let elapsed = now - anim_startTime a
      in min (real_of_int elapsed / duration) 1)"

definition easeProgress :: "real \<Rightarrow> real" where
  "easeProgress progress = 1 - (1 - progress) ^ 3"

definition animate :: "host \<Rightarrow> animation \<Rightarrow> int \<Rightarrow> client \<Rightarrow> client \<times> scheduled" where
  "animate h a now s =
     (let progress = progress_at a now;
          s1 = s\<lparr>currentAngle := easeProgress progress * anim_totalRotation a\<rparr>
      in case drawWheel h (currentAngle s1) of
           Inl e \<Rightarrow> (emit [Uncaught e] s1, Idle)
         | Inr wheel \<Rightarrow>
             let s2 = s1\<lparr>canvas_wheel := wheel\<rparr>
             in if progress < 1 then (requestAnimationFrame s2, NextFrame)
                else
                  let s3 = s2\<lparr>canvas_spinning := False, isSpinning := False\<rparr>
                  in (case showResult h (anim_targetPrize a) s3 of
                        (s4, Some e) \<Rightarrow> (emit [Uncaught e] s4, Idle)
                      | (s4, None) \<Rightarrow>
                          (if hapticFeedback h then emit [HapticNotification] s4 else s4,
                           Timeout (anim_targetPrize a))))"

text \<open>
  A run of the animation: the host calls \<open>animate\<close> once for each requested frame, at the
  clock readings \<open>ts\<close>, as long as the previous call requested another frame.
\<close>

fun run_animation ::
  "host \<Rightarrow> animation \<Rightarrow> int list \<Rightarrow> client \<Rightarrow> client \<times> scheduled" where
  "run_animation h a [] s = (s, NextFrame)"
| "run_animation h a (t # ts) s =
     (case animate h a t s of
        (s', NextFrame) \<Rightarrow> run_animation h a ts s'
      | (s', r) \<Rightarrow> (s', r))"

subsection \<open>spin\<close>

text \<open>
  The outcome of \<^verbatim>\<open>await fetch(...)\<close> followed by \<^verbatim>\<open>await response.json()\<close>: either one of
  them throws (\<open>Rejected\<close>), or there is a response with its \<^verbatim>\<open>ok\<close> flag and the fields
  \<^verbatim>\<open>error\<close> and \<^verbatim>\<open>prize\<close> of the parsed body, a JSON object; a field that is missing
  reads as \<^verbatim>\<open>undefined\<close>.
\<close>

record response =
  resp_ok :: bool
  data_error :: "string option"
  data_prize :: "int option"

datatype fetch_result = Rejected | Resolved response

text \<open>
  \<open>spin\<close> up to its first \<^verbatim>\<open>await\<close>. The flag says whether the request was issued, that
  is, whether the rest of \<open>spin\<close> is waiting for a response. \<^verbatim>\<open>!userId\<close> holds for
  \<^verbatim>\<open>undefined\<close> and for \<open>0\<close>.
\<close>

definition spin_start :: "host \<Rightarrow> client \<Rightarrow> client \<times> bool" where
  "spin_start h s =
     (if isSpinning s then (s, False)
      else
        case user_id h of
          None \<Rightarrow> (emit [Alert AlertNoUserId] s, False)
        | Some userId \<Rightarrow>
            if userId = 0 then (emit [Alert AlertNoUserId] s, False)
            else
              let s1 = s\<lparr>isSpinning := True, spinBtn_disabled := True, loading_hidden := False\<rparr>;
                  s2 = (if hapticFeedback h then emit [HapticImpact] s1 else s1)
              in (emit [FetchSpin userId] s2, True))"

text \<open>The \<^verbatim>\<open>catch\<close> block of \<open>spin\<close>.\<close>

definition spin_catch :: "client \<Rightarrow> client" where
  "spin_catch s =
     emit [Alert AlertConnection]
       ((emit [ConsoleError] s)
          \<lparr>loading_hidden := True, isSpinning := False, spinBtn_disabled := False\<rparr>)"

text \<open>
  The rest of \<open>spin\<close>, run when the request has settled; \<open>now\<close> is the clock reading that
  \<open>animateSpin\<close> takes. The result says which animation, if any, was started.
\<close>

definition spin_resume ::
  "host \<Rightarrow> fetch_result \<Rightarrow> int \<Rightarrow> client \<Rightarrow> client \<times> animation option" where
  "spin_resume h r now s =
     (case r of
        Rejected \<Rightarrow> (spin_catch s, None)
      | Resolved resp \<Rightarrow>
          let s1 = s\<lparr>loading_hidden := True\<rparr>
          in if resp_ok resp then
               (case animateSpin (data_prize resp) now s1 of (s2, a) \<Rightarrow> (s2, Some a))
             else
               let s2 = s1\<lparr>isSpinning := False, spinBtn_disabled := False\<rparr>
               in if data_error resp = Some ''Already spun'' then
                    (case formatPrize h (data_prize resp) of
                       Inl e \<Rightarrow> (spin_catch s2, None)
                     | Inr txt \<Rightarrow>
                         (s2\<lparr>alreadySpunPrize_text := txt, alreadySpun_hidden := False,
                             spinBtn_hidden := True, canvas_dimmed := True\<rparr>, None))
                  else
                    (emit [Alert (AlertError
                       (case data_error resp of
                          None \<Rightarrow> None
                        | Some e \<Rightarrow> if e = [] then None else Some e))] s2, None))"

subsection \<open>The client and its pending callbacks\<close>

text \<open>
  What the host holds for the client: the number of requests \<^verbatim>\<open>POST /api/spin\<close> that have
  not settled, the animations that have a frame requested, and the timers that have not
  fired (each with the prize its callback captured).
\<close>

record system =
  cl :: client
  inflight :: nat
  frames :: "animation list"
  timers :: "int option list"

definition initial_system :: system where
  "initial_system = \<lparr>cl = initial_client, inflight = 0, frames = [], timers = []\<rparr>"

text \<open>
  The events: \<open>spin()\<close> is invoked; a pending request settles; the host runs the frame
  callback of the \<open>k\<close>-th animation at clock reading \<open>now\<close>; the \<open>k\<close>-th timer fires. An event
  that names nothing pending does nothing.
\<close>

datatype event =
    Click
  | Response fetch_result int
  | Frame nat int
  | TimerFires nat bool bool

definition remove_nth :: "nat \<Rightarrow> 'a list \<Rightarrow> 'a list" where
  "remove_nth k xs = take k xs @ drop (Suc k) xs"

fun step :: "host \<Rightarrow> system \<Rightarrow> event \<Rightarrow> system" where
  "step h sys Click =
     (case spin_start h (cl sys) of
        (c, issued) \<Rightarrow>
          sys\<lparr>cl := c, inflight := (if issued then Suc (inflight sys) else inflight sys)\<rparr>)"
| "step h sys (Response r now) =
     (if inflight sys = 0 then sys
      else
        case spin_resume h r now (cl sys) of
          (c, started) \<Rightarrow>
            sys\<lparr>cl := c, inflight := inflight sys - 1,
                frames := frames sys @ (case started of None \<Rightarrow> [] | Some a \<Rightarrow> [a])\<rparr>)"
| "step h sys (Frame k now) =
     (if k < length (frames sys) then
        (case animate h (frames sys ! k) now (cl sys) of
           (c, NextFrame) \<Rightarrow> sys\<lparr>cl := c\<rparr>
         | (c, Timeout p) \<Rightarrow>
             sys\<lparr>cl := c, frames := remove_nth k (frames sys), timers := timers sys @ [p]\<rparr>
         | (c, Idle) \<Rightarrow> sys\<lparr>cl := c, frames := remove_nth k (frames sys)\<rparr>)
      else sys)"
| "step h sys (TimerFires k sendOk closeOk) =
     (if k < length (timers sys) then
        sys\<lparr>cl := timer_callback sendOk closeOk (timers sys ! k) (cl sys),
            timers := remove_nth k (timers sys)\<rparr>
      else sys)"

definition run :: "host \<Rightarrow> system \<Rightarrow> event list \<Rightarrow> system" where
  "run h sys evs = foldl (step h) sys evs"

text \<open>
  Counters on the trace: the calls of the completion callback \<open>showResult\<close>, the frame
  requests, and the requests \<^verbatim>\<open>POST /api/spin\<close> issued so far.
\<close>

definition completions :: "client \<Rightarrow> nat" where
  "completions s =
     length (filter (\<lambda>e. case e of ShowResult p \<Rightarrow> True | _ \<Rightarrow> False) (trace s))"

definition frame_requests :: "client \<Rightarrow> nat" where
  "frame_requests s = length (filter (\<lambda>e. e = RequestFrame) (trace s))"

definition posts :: "client \<Rightarrow> nat" where
  "posts s = length (filter (\<lambda>e. case e of FetchSpin u \<Rightarrow> True | _ \<Rightarrow> False) (trace s))"

text \<open>
  The guard of \<open>spin\<close>: at most one request or animation is pending, and \<open>isSpinning\<close>
  is set exactly while one is.
\<close>

definition spin_guard :: "system \<Rightarrow> bool" where
  "spin_guard sys \<longleftrightarrow>
     inflight sys + length (frames sys) \<le> 1 \<and>
     (isSpinning (cl sys) \<longleftrightarrow> inflight sys + length (frames sys) = 1)"

subsection \<open>The award service\<close>

text \<open>
  Modelled from the spec: the server, \<^verbatim>\<open>mini_app/server.py\<close>, is not among the sources, so
  the store follows sections 3 and 6 of the specification: one table of spin records,
  each with the user id, the prize amount and the time of the assignment.
\<close>

record spin_record =
  rec_user_id :: int
  prize_amount :: int
  spun_at :: nat

type_synonym store = "spin_record list"

definition records_of :: "int \<Rightarrow> store \<Rightarrow> spin_record list" where
  "records_of u st = filter (\<lambda>r. rec_user_id r = u) st"

text \<open>
  Modelled from the spec: the only mutation of the store is a conditional insert keyed by
  the user id, which the uniqueness of the key makes one atomic operation (sections 4.1
  and 5); it is refused when a record of that user exists.
\<close>

definition insert_unique :: "spin_record \<Rightarrow> store \<Rightarrow> store option" where
  "insert_unique r st =
     (if records_of (rec_user_id r) st = [] then Some (st @ [r]) else None)"

text \<open>Modelled from the spec: reading the prize recorded for a user.\<close>

definition stored_prize :: "int \<Rightarrow> store \<Rightarrow> int option" where
  "stored_prize u st =
     (case records_of u st of [] \<Rightarrow> None | r # _ \<Rightarrow> Some (prize_amount r))"

text \<open>
  Modelled from the spec: \<open>AwardSpin\<close> returns the prize, or fails with \<open>AlreadySpun\<close>
  carrying the previously recorded prize.
\<close>

datatype award_result = Awarded int | AlreadySpun int

fun result_prize :: "award_result \<Rightarrow> int" where
  "result_prize (Awarded p) = p"
| "result_prize (AlreadySpun p) = p"

text \<open>
  Modelled from the spec: a call of \<open>AwardSpin\<close> in progress. It has rolled a prize and not
  yet reached the store; or its insert was refused and it has not yet read the stored
  record; or it has returned.
\<close>

datatype call = Rolled int | Refused | Returned award_result

record server =
  srv_store :: store
  srv_calls :: "call list"
  srv_clock :: nat

text \<open>
  Modelled from the spec: one atomic step of the call number \<open>i\<close> of \<open>AwardSpin u\<close>. A call
  that has rolled a prize attempts the insert and, if it is accepted, returns the rolled
  prize; a call whose insert was refused reads the stored record and returns the
  previously recorded prize. Concurrent calls are the interleavings of such steps: a
  schedule names the call that moves next.
\<close>

definition award_step :: "int \<Rightarrow> server \<Rightarrow> nat \<Rightarrow> server" where
  "award_step u srv i =
     (if i < length (srv_calls srv) then
        (case srv_calls srv ! i of
           Rolled p \<Rightarrow>
             (case insert_unique
                     \<lparr>rec_user_id = u, prize_amount = p, spun_at = srv_clock srv\<rparr>
                     (srv_store srv) of
                Some st \<Rightarrow>
                  srv\<lparr>srv_store := st,
                      srv_calls := (srv_calls srv)[i := Returned (Awarded p)],
                      srv_clock := Suc (srv_clock srv)\<rparr>
              | None \<Rightarrow>
                  srv\<lparr>srv_calls := (srv_calls srv)[i := Refused],
                      srv_clock := Suc (srv_clock srv)\<rparr>)
         | Refused \<Rightarrow>
             (case stored_prize u (srv_store srv) of
                Some p \<Rightarrow>
                  srv\<lparr>srv_calls := (srv_calls srv)[i := Returned (AlreadySpun p)],
                      srv_clock := Suc (srv_clock srv)\<rparr>
              | None \<Rightarrow> srv\<lparr>srv_clock := Suc (srv_clock srv)\<rparr>)
         | Returned r \<Rightarrow> srv)
      else srv)"

definition award_run :: "int \<Rightarrow> server \<Rightarrow> nat list \<Rightarrow> server" where
  "award_run u srv schedule = foldl (award_step u) srv schedule"

text \<open>
  Modelled from the spec: \<open>N\<close> calls for the same user arrive, each with the prize it
  rolled from the prize table.
\<close>

definition award_calls :: "store \<Rightarrow> nat \<Rightarrow> int list \<Rightarrow> server" where
  "award_calls st now rolls =
     \<lparr>srv_store = st, srv_calls = map Rolled rolls, srv_clock = now\<rparr>"

fun returned :: "call \<Rightarrow> bool" where
  "returned (Returned r) = True"
| "returned c = False"

fun call_prize :: "call \<Rightarrow> int option" where
  "call_prize (Returned r) = Some (result_prize r)"
| "call_prize c = None"

fun awarded :: "call \<Rightarrow> bool" where
  "awarded (Returned (Awarded p)) = True"
| "awarded c = False"

fun call_rank :: "call \<Rightarrow> nat" where
  "call_rank (Rolled p) = 0"
| "call_rank Refused = 1"
| "call_rank (Returned r) = 2"

text \<open>
  The invariant of the award service for the user \<open>u\<close>: at most one record; a rolled prize
  is one of the rolls, a refused call has a record to read, and a returned call carries
  the stored prize; the stored prize is one of the rolls; and as many calls were awarded
  as there are records.
\<close>

fun call_ok :: "int \<Rightarrow> int list \<Rightarrow> store \<Rightarrow> call \<Rightarrow> bool" where
  "call_ok u rolls st (Rolled p) = (p \<in> set rolls)"
| "call_ok u rolls st Refused = (records_of u st \<noteq> [])"
| "call_ok u rolls st (Returned r) = (stored_prize u st = Some (result_prize r))"

definition award_inv :: "int \<Rightarrow> int list \<Rightarrow> server \<Rightarrow> bool" where
  "award_inv u rolls srv \<longleftrightarrow>
     length (records_of u (srv_store srv)) \<le> 1 \<and>
     (\<forall>c\<in>set (srv_calls srv). call_ok u rolls (srv_store srv) c) \<and>
     (\<forall>r\<in>set (records_of u (srv_store srv)). prize_amount r \<in> set rolls) \<and>
     length (filter awarded (srv_calls srv)) = length (records_of u (srv_store srv))"

section \<open>Properties\<close>

subsection \<open>The remainder operator\<close>

lemma js_rem_nonneg:
  assumes "0 < b" "0 \<le> a"
  shows "0 \<le> js_rem a b \<and> js_rem a b < b"
proof -
  have q: "0 \<le> a / b" using assms by simp
  have t: "js_trunc (a / b) = \<lfloor>a / b\<rfloor>" using q by (simp add: js_trunc_def)
  have ab: "b * (a / b) = a" using assms(1) by simp
  have lo: "of_int \<lfloor>a / b\<rfloor> \<le> a / b" by simp
  have hi: "a / b < of_int \<lfloor>a / b\<rfloor> + 1" by linarith
  have "b * of_int \<lfloor>a / b\<rfloor> \<le> b * (a / b)"
    using lo assms(1) by (intro mult_left_mono) simp_all
  moreover have "b * (a / b) < b * (of_int \<lfloor>a / b\<rfloor> + 1)"
    using hi assms(1) by (intro mult_strict_left_mono) simp_all
  ultimately show ?thesis unfolding js_rem_def t ab by (simp add: algebra_simps)
qed

lemma js_rem_neg:
  assumes "0 < b" "a < 0"
  shows "- b < js_rem a b \<and> js_rem a b \<le> 0"
proof -
  have q: "a / b < 0" using assms by (simp add: divide_neg_pos)
  have t: "js_trunc (a / b) = \<lceil>a / b\<rceil>" using q by (simp add: js_trunc_def)
  have ab: "b * (a / b) = a" using assms(1) by simp
  have lo: "a / b \<le> of_int \<lceil>a / b\<rceil>" by simp
  have hi: "of_int \<lceil>a / b\<rceil> - 1 < a / b" by linarith
  have "b * (a / b) \<le> b * of_int \<lceil>a / b\<rceil>"
    using lo assms(1) by (intro mult_left_mono) simp_all
  moreover have "b * (of_int \<lceil>a / b\<rceil> - 1) < b * (a / b)"
    using hi assms(1) by (intro mult_strict_left_mono) simp_all
  ultimately show ?thesis unfolding js_rem_def t ab by (simp add: algebra_simps)
qed

lemma js_rem_lower: "0 < b \<Longrightarrow> - b < js_rem a b"
  using js_rem_nonneg [of b a] js_rem_neg [of b a] by (cases "0 \<le> a") auto

lemma js_rem_small:
  assumes "0 < b" "- b < a" "a < b"
  shows "js_rem a b = a"
proof -
  have "- 1 < a / b" "a / b < 1"
    using assms by (simp_all add: pos_less_divide_eq pos_divide_less_eq)
  then have "js_trunc (a / b) = 0"
    unfolding js_trunc_def by (auto simp: floor_eq_iff ceiling_eq_iff)
  then show ?thesis by (simp add: js_rem_def)
qed

subsection \<open>The target rotation\<close>

lemma normalized_range:
  "0 \<le> normalizedTargetAngle i \<and> normalizedTargetAngle i < 2 * pi"
proof -
  have b: "0 < 2 * pi" by simp
  have "0 \<le> js_rem (targetAngle i) (2 * pi) + 2 * pi"
    using js_rem_lower [OF b, of "targetAngle i"] by simp
  from js_rem_nonneg [OF b this] show ?thesis
    by (simp add: normalizedTargetAngle_def)
qed

lemma normalized_cong:
  "\<exists>k::int. normalizedTargetAngle i = targetAngle i + 2 * pi * of_int k"
proof -
  let ?k1 = "js_trunc (targetAngle i / (2 * pi))"
  let ?r1 = "js_rem (targetAngle i) (2 * pi)"
  let ?k2 = "js_trunc ((?r1 + 2 * pi) / (2 * pi))"
  have "normalizedTargetAngle i = targetAngle i + 2 * pi * of_int (1 - ?k1 - ?k2)"
    by (simp add: normalizedTargetAngle_def js_rem_def algebra_simps)
  then show ?thesis by blast
qed

lemma totalRotation_cong:
  "\<exists>k::int. totalRotation i = targetAngle i + 2 * pi * of_int k"
proof -
  obtain k :: int where k: "normalizedTargetAngle i = targetAngle i + 2 * pi * of_int k"
    using normalized_cong by blast
  have "totalRotation i = targetAngle i + 2 * pi * of_int (k + 5)"
    by (simp add: totalRotation_def k algebra_simps)
  then show ?thesis by blast
qed

lemma totalRotation_nonneg: "0 \<le> totalRotation i"
  using normalized_range [of i] by (simp add: totalRotation_def)

lemma totalRotation_lands:
  "\<exists>k::int. totalRotation i + of_int i * (2 * pi / real (length PRIZES))
              + (2 * pi / real (length PRIZES)) / 2 = - pi / 2 + 2 * pi * of_int k"
proof -
  obtain k :: int where k: "totalRotation i = targetAngle i + 2 * pi * of_int k"
    using totalRotation_cong [of i] by blast
  have "totalRotation i + of_int i * (2 * pi / real (length PRIZES))
          + (2 * pi / real (length PRIZES)) / 2 = - pi / 2 + 2 * pi * of_int k"
    unfolding k by (simp add: targetAngle_def segmentCenterAngle_def Let_def)
  then show ?thesis by blast
qed

text \<open>
  Claim C4. In \<open>animateSpin\<close>, for every target index (also \<open>-1\<close>), the normalized target
  angle lies in the half-open interval from \<open>0\<close> to \<open>2 * pi\<close>; the total rotation is five
  full turns plus that angle; and the total rotation differs from the raw target angle by
  a whole number of turns, so the extra turns do not change the final angle modulo
  \<open>2 * pi\<close>.
\<close>

theorem animateSpin_total_rotation_normalized:
  "0 \<le> normalizedTargetAngle i \<and> normalizedTargetAngle i < 2 * pi \<and>
   totalRotation i = 5 * (2 * pi) + normalizedTargetAngle i \<and>
   (\<exists>k::int. totalRotation i = normalizedTargetAngle i + 2 * pi * of_int k) \<and>
   (\<exists>k::int. totalRotation i = targetAngle i + 2 * pi * of_int k)"
proof -
  have t: "totalRotation i = 5 * (2 * pi) + normalizedTargetAngle i"
    by (simp add: totalRotation_def)
  have "totalRotation i = normalizedTargetAngle i + 2 * pi * of_int 5"
    by (simp add: totalRotation_def)
  then have "\<exists>k::int. totalRotation i = normalizedTargetAngle i + 2 * pi * of_int k"
    by (rule exI)
  with t totalRotation_cong [of i] normalized_range [of i] show ?thesis by blast
qed

theorem animateSpin_total_rotation_normalized_witness:
  "0 \<le> normalizedTargetAngle 2 \<and> normalizedTargetAngle 2 < 2 * pi \<and>
   totalRotation 2 = 5 * (2 * pi) + normalizedTargetAngle 2"
  using animateSpin_total_rotation_normalized [of 2] by simp

subsection \<open>The wheel\<close>

lemma draw_loop_ok:
  "\<forall>i\<in>set is. i < length PRIZES \<Longrightarrow>
   draw_loop h rotation arc is =
     Inr (map (\<lambda>i. \<lparr>seg_fillStyle = js_nth COLORS i,
                     seg_startAngle = rotation + real i * arc,
                     seg_endAngle = rotation + real i * arc + arc,
                     seg_textAngle = rotation + real i * arc + arc / 2,
                     seg_label = toLocaleString h (PRIZES ! i)
                                   @ [CHR '' '', CHR 0xE2, CHR 0x82, CHR 0xBD]\<rparr>) is)"
proof (induction "is")
  case Nil
  show ?case by simp
next
  case (Cons i "is")
  from Cons.prems have "js_nth PRIZES i = Some (PRIZES ! i)" by (simp add: js_nth_def)
  with Cons show ?case by (simp add: draw_segment_def formatPrize_def Let_def)
qed

lemma drawWheel_ok:
  "drawWheel h rotation =
     Inr (map (\<lambda>i. \<lparr>seg_fillStyle = js_nth COLORS i,
                     seg_startAngle = rotation + real i * (2 * pi / real (length PRIZES)),
                     seg_endAngle = rotation + real i * (2 * pi / real (length PRIZES))
                                      + 2 * pi / real (length PRIZES),
                     seg_textAngle = rotation + real i * (2 * pi / real (length PRIZES))
                                      + 2 * pi / real (length PRIZES) / 2,
                     seg_label = toLocaleString h (PRIZES ! i)
                                   @ [CHR '' '', CHR 0xE2, CHR 0x82, CHR 0xBD]\<rparr>)
              [0..<length PRIZES])"
  unfolding drawWheel_def Let_def by (rule draw_loop_ok) simp

lemma length_tables: "length PRIZES = 6" "length COLORS = 6"
  by (simp_all add: PRIZES_def COLORS_def)

text \<open>
  Claim C10. The palette \<open>COLORS\<close> has the length of the prize table \<open>PRIZES\<close>, which is 6.
  So \<open>drawWheel\<close> throws nothing and draws one segment for each index below that length;
  for each of them the reads \<^verbatim>\<open>COLORS[i]\<close> and \<^verbatim>\<open>PRIZES[i]\<close> are in range and defined: the
  fill colour is \<open>COLORS ! i\<close> and the label is the formatted \<open>PRIZES ! i\<close>; and every segment
  spans the same angle, \<open>2 * pi\<close> divided by the number of prizes.
\<close>

theorem drawWheel_tables_in_bounds:
  "length COLORS = length PRIZES \<and> length PRIZES = 6 \<and>
   (\<exists>wheel. drawWheel h rotation = Inr wheel \<and> length wheel = length PRIZES \<and>
      (\<forall>i<length PRIZES.
         js_nth COLORS i = Some (COLORS ! i) \<and> js_nth PRIZES i = Some (PRIZES ! i) \<and>
         seg_fillStyle (wheel ! i) = Some (COLORS ! i) \<and>
         formatPrize h (js_nth PRIZES i) = Inr (seg_label (wheel ! i)) \<and>
         seg_endAngle (wheel ! i) - seg_startAngle (wheel ! i)
           = 2 * pi / real (length PRIZES)))"
proof -
  have len: "length COLORS = length PRIZES" "length PRIZES = 6"
    by (simp_all add: length_tables)
  show ?thesis
    unfolding drawWheel_ok using len
    by (simp add: js_nth_def formatPrize_def)
qed

theorem drawWheel_tables_in_bounds_witness:
  "\<exists>wheel.
     drawWheel \<lparr>user_id = Some 42, hapticFeedback = True, toLocaleString = number_string\<rparr> 0
       = Inr wheel \<and>
     (2::nat) < length PRIZES \<and> seg_fillStyle (wheel ! 2) = Some ''#45B7D1'' \<and>
     seg_endAngle (wheel ! 2) - seg_startAngle (wheel ! 2) = pi / 3"
  using drawWheel_tables_in_bounds
    [of "\<lparr>user_id = Some 42, hapticFeedback = True, toLocaleString = number_string\<rparr>" 0]
  apply (simp add: length_tables)
  apply (elim exE conjE)
  subgoal for wheel
    apply (rule exI [of _ wheel])
    apply (drule spec [of _ 2])
    apply (simp add: COLORS_def)
    done
  done

subsection \<open>One frame and a whole run of the animation\<close>

lemma animate_angle:
  "currentAngle (fst (animate h a now s))
     = easeProgress (progress_at a now) * anim_totalRotation a"
  by (simp add: animate_def Let_def drawWheel_ok requestAnimationFrame_def emit_def
      showResult_def formatPrize_def split: option.splits)

lemma animate_wheel:
  "canvas_wheel (fst (animate h a now s)) =
     projr (drawWheel h (easeProgress (progress_at a now) * anim_totalRotation a))"
  by (simp add: animate_def Let_def drawWheel_ok requestAnimationFrame_def emit_def
      showResult_def formatPrize_def split: option.splits)

lemma animate_running:
  "progress_at a now < 1 \<Longrightarrow>
   animate h a now s =
     (requestAnimationFrame
        (s\<lparr>currentAngle := easeProgress (progress_at a now) * anim_totalRotation a,
           canvas_wheel :=
             projr (drawWheel h (easeProgress (progress_at a now) * anim_totalRotation a))\<rparr>),
      NextFrame)"
  by (simp add: animate_def Let_def drawWheel_ok)

lemma animate_finished:
  "\<not> progress_at a now < 1 \<Longrightarrow> snd (animate h a now s) \<noteq> NextFrame"
  by (simp add: animate_def Let_def drawWheel_ok showResult_def formatPrize_def
      split: option.splits)

lemma progress_at_le_one: "progress_at a t \<le> 1"
  by (simp add: progress_at_def Let_def)

lemma progress_at_reached: "\<not> progress_at a t < 1 \<longleftrightarrow> progress_at a t = 1"
  using progress_at_le_one [of a t] by auto

lemma progress_at_one:
  "\<not> progress_at a now < 1 \<longleftrightarrow> duration \<le> real_of_int (now - anim_startTime a)"
  by (auto simp: progress_at_def Let_def duration_def min_def)

lemma progress_at_mono: "t1 \<le> t2 \<Longrightarrow> progress_at a t1 \<le> progress_at a t2"
  by (auto simp: progress_at_def Let_def duration_def min_def)

lemma easeProgress_mono: "p \<le> q \<Longrightarrow> easeProgress p \<le> easeProgress q"
proof -
  assume "p \<le> q"
  then have "1 - q \<le> 1 - p" by simp
  then have "(1 - q) ^ 3 \<le> (1 - p) ^ 3" by (intro power_mono_odd) simp_all
  then show ?thesis by (simp add: easeProgress_def)
qed

lemma easeProgress_one: "\<not> progress_at a now < 1 \<Longrightarrow> easeProgress (progress_at a now) = 1"
  by (simp add: progress_at_reached easeProgress_def)

text \<open>
  Claim C5. The progress of a frame is computed from the clock reading alone. For an
  animation started by \<open>animateSpin\<close> and two frames at clock readings \<open>t1 \<le> t2\<close>, whatever the
  states they run in, the rotation set by the later frame is at least the rotation set by
  the earlier one; and a frame whose elapsed time has reached \<open>duration\<close> has progress
  exactly 1 and sets the rotation to exactly the total rotation.
\<close>

theorem animate_progress_monotone_clamped:
  assumes "a = snd (animateSpin targetPrize t0 s0)"
  shows "(t1 \<le> t2 \<longrightarrow>
            currentAngle (fst (animate h a t1 s)) \<le> currentAngle (fst (animate h a t2 s'))) \<and>
         (duration \<le> real_of_int (t - t0) \<longrightarrow>
            progress_at a t = 1 \<and>
            currentAngle (fst (animate h a t s)) = anim_totalRotation a)"
proof -
  have tot: "0 \<le> anim_totalRotation a" and st: "anim_startTime a = t0"
    using assms by (simp_all add: animateSpin_def Let_def totalRotation_nonneg)
  have mono: "currentAngle (fst (animate h a t1 s)) \<le> currentAngle (fst (animate h a t2 s'))"
    if "t1 \<le> t2"
    unfolding animate_angle
    by (intro mult_right_mono easeProgress_mono progress_at_mono that tot)
  have fin: "progress_at a t = 1 \<and> currentAngle (fst (animate h a t s)) = anim_totalRotation a"
    if "duration \<le> real_of_int (t - t0)"
  proof -
    from that st have "\<not> progress_at a t < 1" by (simp add: progress_at_one)
    then have "progress_at a t = 1" by (simp add: progress_at_reached)
    then show ?thesis by (simp add: animate_angle easeProgress_def)
  qed
  from mono fin show ?thesis by blast
qed

theorem animate_progress_monotone_clamped_witness:
  "currentAngle (fst (animate \<lparr>user_id = Some 42, hapticFeedback = True, toLocaleString = number_string\<rparr>
       (snd (animateSpin (Some 15000) 0 initial_client)) 1000 initial_client))
     \<le> currentAngle (fst (animate \<lparr>user_id = Some 42, hapticFeedback = True, toLocaleString = number_string\<rparr>
       (snd (animateSpin (Some 15000) 0 initial_client)) 9000 initial_client)) \<and>
   currentAngle (fst (animate \<lparr>user_id = Some 42, hapticFeedback = True, toLocaleString = number_string\<rparr>
       (snd (animateSpin (Some 15000) 0 initial_client)) 4000 initial_client))
     = anim_totalRotation (snd (animateSpin (Some 15000) 0 initial_client))"
  using animate_progress_monotone_clamped
    [OF refl, of 1000 9000
      "\<lparr>user_id = Some 42, hapticFeedback = True, toLocaleString = number_string\<rparr>"
      "Some 15000" 0 initial_client initial_client initial_client 4000]
  by (simp add: duration_def)

lemma run_animation_Cons_running:
  "progress_at a t < 1 \<Longrightarrow>
   run_animation h a (t # ts) s = run_animation h a ts (fst (animate h a t s))"
  by (simp add: animate_running)

lemma run_animation_Cons_finished:
  "\<not> progress_at a t < 1 \<Longrightarrow> run_animation h a (t # ts) s = animate h a t s"
  using animate_finished [of a t h s]
  by (cases "animate h a t s") (auto split: scheduled.splits)

lemma run_animation_end:
  "\<exists>t\<in>set ts. \<not> progress_at a t < 1 \<Longrightarrow>
   currentAngle (fst (run_animation h a ts s)) = anim_totalRotation a \<and>
   canvas_wheel (fst (run_animation h a ts s)) = projr (drawWheel h (anim_totalRotation a)) \<and>
   snd (run_animation h a ts s) \<noteq> NextFrame"
proof (induction ts arbitrary: s)
  case Nil
  then show ?case by simp
next
  case (Cons t ts)
  show ?case
  proof (cases "progress_at a t < 1")
    case True
    with Cons.prems have "\<exists>t\<in>set ts. \<not> progress_at a t < 1" by auto
    from Cons.IH [OF this] True show ?thesis
      by (simp add: run_animation_Cons_running del: run_animation.simps)
  next
    case False
    then show ?thesis
      by (simp add: run_animation_Cons_finished animate_angle animate_wheel
          easeProgress_one animate_finished del: run_animation.simps)
  qed
qed

subsection \<open>Landing on the prize\<close>

lemma indexOf_from_present:
  "p \<in> set xs \<Longrightarrow>
   i \<le> indexOf_from (map Some xs) (Some p) i \<and>
   indexOf_from (map Some xs) (Some p) i < i + int (length xs) \<and>
   xs ! nat (indexOf_from (map Some xs) (Some p) i - i) = p"
proof (induction xs arbitrary: i)
  case Nil
  then show ?case by simp
next
  case (Cons y ys)
  show ?case
  proof (cases "y = p")
    case True
    then show ?thesis by simp
  next
    case False
    with Cons.prems have "p \<in> set ys" by simp
    from Cons.IH [OF this, of "i + 1"]
    have ih: "i + 1 \<le> indexOf_from (map Some ys) (Some p) (i + 1)"
      "indexOf_from (map Some ys) (Some p) (i + 1) < i + 1 + int (length ys)"
      "ys ! nat (indexOf_from (map Some ys) (Some p) (i + 1) - (i + 1)) = p"
      by simp_all
    from ih(1) have "nat (indexOf_from (map Some ys) (Some p) (i + 1) - i)
        = Suc (nat (indexOf_from (map Some ys) (Some p) (i + 1) - (i + 1)))"
      by linarith
    with ih False show ?thesis by simp
  qed
qed

lemma indexOf_present:
  "p \<in> set xs \<Longrightarrow>
   0 \<le> indexOf (map Some xs) (Some p) \<and>
   indexOf (map Some xs) (Some p) < int (length xs) \<and>
   xs ! nat (indexOf (map Some xs) (Some p)) = p"
  using indexOf_from_present [of p xs 0] by (simp add: indexOf_def)

lemma indexOf_from_absent: "x \<notin> set xs \<Longrightarrow> indexOf_from xs x i = - 1"
  by (induction xs arbitrary: i) auto

lemma indexOf_absent: "x \<notin> set xs \<Longrightarrow> indexOf xs x = - 1"
  by (simp add: indexOf_def indexOf_from_absent)

text \<open>
  Claim C1. Let \<open>p\<close> be a prize of the table \<open>PRIZES\<close>, at position \<open>targetIndex\<close>, and let the
  animation started by \<open>animateSpin p\<close> run until a frame whose elapsed time has reached
  \<open>duration\<close>. Then the final rotation \<open>R\<close> satisfies
  \<open>R + targetIndex * arc + arc / 2 = - pi / 2\<close> modulo \<open>2 * pi\<close>, with \<open>arc = 2 * pi / N\<close> and
  \<open>N\<close> the number of prizes; the left-hand side is the direction of the centre of the
  segment of \<open>p\<close> in the wheel drawn last, so that centre is under the pointer at 12 o'clock.
  The final rotation is the same from every state in which the spin is started, in
  particular for every rotation the wheel had before.
\<close>

theorem animateSpin_lands_on_prize:
  assumes "p \<in> set PRIZES"
    and "\<exists>t\<in>set ts. duration \<le> real_of_int (t - t0)"
  shows "let targetIndex = indexOf (map Some PRIZES) (Some p);
             arc = 2 * pi / real (length PRIZES);
             final = (\<lambda>s. fst (run_animation h (snd (animateSpin (Some p) t0 s)) ts
                                 (fst (animateSpin (Some p) t0 s))));
             R = currentAngle (final s)
         in 0 \<le> targetIndex \<and> nat targetIndex < length PRIZES \<and>
            PRIZES ! nat targetIndex = p \<and>
            (\<exists>k::int. R + of_int targetIndex * arc + arc / 2 = - pi / 2 + 2 * pi * of_int k) \<and>
            seg_textAngle (canvas_wheel (final s) ! nat targetIndex)
              = R + of_int targetIndex * arc + arc / 2 \<and>
            currentAngle (final s') = R"
proof -
  let ?i = "indexOf (map Some PRIZES) (Some p)"
  let ?a = "\<lambda>s. snd (animateSpin (Some p) t0 s)"
  have idx: "0 \<le> ?i" "?i < int (length PRIZES)" "PRIZES ! nat ?i = p"
    using indexOf_present [OF assms(1)] by simp_all
  have a: "anim_totalRotation (?a s) = totalRotation ?i" "anim_startTime (?a s) = t0" for s
    by (simp_all add: animateSpin_def Let_def)
  have ex: "\<exists>t\<in>set ts. \<not> progress_at (?a s) t < 1" for s
    using assms(2) by (simp add: progress_at_one a)
  have R: "currentAngle (fst (run_animation h (?a s) ts (fst (animateSpin (Some p) t0 s))))
             = totalRotation ?i" for s
    using run_animation_end [OF ex] by (simp add: a)
  have W: "canvas_wheel (fst (run_animation h (?a s) ts (fst (animateSpin (Some p) t0 s))))
             = projr (drawWheel h (totalRotation ?i))" for s
    using run_animation_end [OF ex] by (simp add: a)
  have n: "nat ?i < length PRIZES" using idx by simp
  have lab: "seg_textAngle (projr (drawWheel h (totalRotation ?i)) ! nat ?i)
               = totalRotation ?i + of_int ?i * (2 * pi / real (length PRIZES))
                   + (2 * pi / real (length PRIZES)) / 2"
    using n idx(1) by (simp add: drawWheel_ok)
  show ?thesis
    unfolding Let_def R W lab
    using idx n totalRotation_lands [of ?i] by simp
qed

theorem animateSpin_lands_on_prize_witness:
  "15000 \<in> set PRIZES \<and> (\<exists>t\<in>set [1000, 4000]. duration \<le> real_of_int (t - 0)) \<and>
   indexOf (map Some PRIZES) (Some 15000) = 2 \<and>
   (\<exists>k::int.
      currentAngle (fst (run_animation
          \<lparr>user_id = Some 42, hapticFeedback = True, toLocaleString = number_string\<rparr>
          (snd (animateSpin (Some 15000) 0 initial_client)) [1000, 4000]
          (fst (animateSpin (Some 15000) 0 initial_client))))
        + 2 * (2 * pi / 6) + (2 * pi / 6) / 2 = - pi / 2 + 2 * pi * of_int k) \<and>
   currentAngle (fst (run_animation
          \<lparr>user_id = Some 42, hapticFeedback = True, toLocaleString = number_string\<rparr>
          (snd (animateSpin (Some 15000) 0 (initial_client\<lparr>currentAngle := 1\<rparr>))) [1000, 4000]
          (fst (animateSpin (Some 15000) 0 (initial_client\<lparr>currentAngle := 1\<rparr>)))))
     = currentAngle (fst (run_animation
          \<lparr>user_id = Some 42, hapticFeedback = True, toLocaleString = number_string\<rparr>
          (snd (animateSpin (Some 15000) 0 initial_client)) [1000, 4000]
          (fst (animateSpin (Some 15000) 0 initial_client))))"
proof -
  have p: "15000 \<in> set PRIZES" by (simp add: PRIZES_def)
  have t: "\<exists>t\<in>set [1000, 4000]. duration \<le> real_of_int (t - 0)" by (simp add: duration_def)
  have i: "indexOf (map Some PRIZES) (Some 15000) = 2" by (simp add: PRIZES_def indexOf_def)
  have n: "real (length PRIZES) = 6" by (simp add: PRIZES_def)
  from animateSpin_lands_on_prize [OF p t,
      of "\<lparr>user_id = Some 42, hapticFeedback = True, toLocaleString = number_string\<rparr>"
         initial_client "initial_client\<lparr>currentAngle := 1\<rparr>"]
  show ?thesis
    unfolding Let_def i n using p t by simp
qed

subsection \<open>The completion callback\<close>

lemma animate_trace_running:
  "progress_at a t < 1 \<Longrightarrow> trace (fst (animate h a t s)) = trace s @ [RequestFrame]"
  by (simp add: animate_running requestAnimationFrame_def emit_def Let_def)

lemma animate_trace_finished:
  "\<not> progress_at a t < 1 \<Longrightarrow>
   trace (fst (animate h a t s)) =
     trace s @ ShowResult (anim_targetPrize a) #
       (case anim_targetPrize a of
          None \<Rightarrow> [Uncaught TypeError]
        | Some p \<Rightarrow> SetTimeout 3000 (Some p) #
            (if hapticFeedback h then [HapticNotification] else []))"
  by (simp add: animate_def Let_def drawWheel_ok showResult_def formatPrize_def emit_def
      split: option.splits)

lemma run_animation_trace_finished:
  "\<exists>t\<in>set ts. \<not> progress_at a t < 1 \<Longrightarrow>
   trace (fst (run_animation h a ts s)) =
     trace s @ replicate (length (takeWhile (\<lambda>t. progress_at a t < 1) ts)) RequestFrame @
       ShowResult (anim_targetPrize a) #
       (case anim_targetPrize a of
          None \<Rightarrow> [Uncaught TypeError]
        | Some p \<Rightarrow> SetTimeout 3000 (Some p) #
            (if hapticFeedback h then [HapticNotification] else []))"
proof (induction ts arbitrary: s)
  case Nil
  then show ?case by simp
next
  case (Cons t ts)
  show ?case
  proof (cases "progress_at a t < 1")
    case True
    with Cons.prems have "\<exists>t\<in>set ts. \<not> progress_at a t < 1" by auto
    from Cons.IH [OF this, of "fst (animate h a t s)"] True show ?thesis
      by (simp add: run_animation_Cons_running animate_trace_running del: run_animation.simps)
  next
    case False
    then show ?thesis
      by (simp add: run_animation_Cons_finished animate_trace_finished del: run_animation.simps)
  qed
qed

lemma run_animation_unfinished:
  "\<forall>t\<in>set ts. progress_at a t < 1 \<Longrightarrow>
   trace (fst (run_animation h a ts s)) = trace s @ replicate (length ts) RequestFrame \<and>
   snd (run_animation h a ts s) = NextFrame"
proof (induction ts arbitrary: s)
  case Nil
  then show ?case by simp
next
  case (Cons t ts)
  then have t: "progress_at a t < 1" and ts: "\<forall>t\<in>set ts. progress_at a t < 1" by simp_all
  from Cons.IH [OF ts, of "fst (animate h a t s)"] t show ?case
    by (simp add: run_animation_Cons_running animate_trace_running replicate_app_Cons_same
        del: run_animation.simps)
qed

text \<open>
  Claim C6. In a run of the animation the frames are called at the clock readings \<open>ts\<close>. If
  some frame reaches progress 1, the run calls the completion callback \<open>showResult\<close>, with the
  target prize, exactly once: the trace is extended by one frame request for each frame
  before the first one that reaches progress 1, and then, by that frame, the call of
  \<open>showResult\<close> and what the call does. No frame request follows it, no later clock
  reading is used, and nothing is left scheduled but the timer of \<open>showResult\<close>. If no frame
  reaches progress 1, the callback has not been called and a frame is still requested.
\<close>

theorem animate_completes_once:
  "(if \<exists>t\<in>set ts. progress_at a t = 1 then
      completions (fst (run_animation h a ts s)) = completions s + 1 \<and>
      frame_requests (fst (run_animation h a ts s))
        = frame_requests s + length (takeWhile (\<lambda>t. progress_at a t < 1) ts) \<and>
      trace (fst (run_animation h a ts s)) =
        trace s @ replicate (length (takeWhile (\<lambda>t. progress_at a t < 1) ts)) RequestFrame @
          ShowResult (anim_targetPrize a) #
          (case anim_targetPrize a of
             None \<Rightarrow> [Uncaught TypeError]
           | Some p \<Rightarrow> SetTimeout 3000 (Some p) #
               (if hapticFeedback h then [HapticNotification] else [])) \<and>
      snd (run_animation h a ts s) \<noteq> NextFrame
    else
      completions (fst (run_animation h a ts s)) = completions s \<and>
      snd (run_animation h a ts s) = NextFrame)"
proof (cases "\<exists>t\<in>set ts. progress_at a t = 1")
  case True
  then have ex: "\<exists>t\<in>set ts. \<not> progress_at a t < 1" by (simp add: progress_at_reached)
  note tr = run_animation_trace_finished [OF ex, of h s]
  have "snd (run_animation h a ts s) \<noteq> NextFrame"
    using run_animation_end [OF ex] by simp
  moreover have "completions (fst (run_animation h a ts s)) = completions s + 1"
    unfolding completions_def tr by (simp split: option.splits)
  moreover have "frame_requests (fst (run_animation h a ts s))
        = frame_requests s + length (takeWhile (\<lambda>t. progress_at a t < 1) ts)"
    unfolding frame_requests_def tr by (simp split: option.splits)
  ultimately show ?thesis using True tr by simp
next
  case False
  then have all: "\<forall>t\<in>set ts. progress_at a t < 1"
    using progress_at_reached by blast
  from run_animation_unfinished [OF all, of h s] False show ?thesis
    by (simp add: completions_def)
qed

theorem animate_completes_once_witness:
  "(\<exists>t\<in>set [1000, 4000, 5000]. progress_at (snd (animateSpin (Some 15000) 0 initial_client)) t = 1) \<and>
   completions (fst (run_animation
       \<lparr>user_id = Some 42, hapticFeedback = True, toLocaleString = number_string\<rparr>
       (snd (animateSpin (Some 15000) 0 initial_client)) [1000, 4000, 5000]
       (fst (animateSpin (Some 15000) 0 initial_client)))) = 1 \<and>
   trace (fst (run_animation
       \<lparr>user_id = Some 42, hapticFeedback = True, toLocaleString = number_string\<rparr>
       (snd (animateSpin (Some 15000) 0 initial_client)) [1000, 4000, 5000]
       (fst (animateSpin (Some 15000) 0 initial_client))))
     = [RequestFrame, RequestFrame, ShowResult (Some 15000), SetTimeout 3000 (Some 15000),
        HapticNotification] \<and>
   snd (run_animation
       \<lparr>user_id = Some 42, hapticFeedback = True, toLocaleString = number_string\<rparr>
       (snd (animateSpin (Some 15000) 0 initial_client)) [1000, 4000, 5000]
       (fst (animateSpin (Some 15000) 0 initial_client))) \<noteq> NextFrame"
proof -
  let ?a = "snd (animateSpin (Some 15000) 0 initial_client)"
  have p: "progress_at ?a 1000 < 1" "progress_at ?a 4000 = 1" "progress_at ?a 5000 = 1"
    by (simp_all add: progress_at_def animateSpin_def Let_def duration_def)
  have s: "trace (fst (animateSpin (Some 15000) 0 initial_client)) = [RequestFrame]"
    "completions (fst (animateSpin (Some 15000) 0 initial_client)) = 0"
    "anim_targetPrize ?a = Some 15000"
    by (simp_all add: animateSpin_def Let_def requestAnimationFrame_def emit_def
        initial_client_def completions_def)
  from animate_completes_once
    [of "[1000, 4000, 5000]" ?a
        "\<lparr>user_id = Some 42, hapticFeedback = True, toLocaleString = number_string\<rparr>"
        "fst (animateSpin (Some 15000) 0 initial_client)"]
  show ?thesis by (simp add: p s)
qed

subsection \<open>The guard of spin\<close>

lemma spin_start_busy: "isSpinning s \<Longrightarrow> spin_start h s = (s, False)"
  by (simp add: spin_start_def)

lemma spin_start_cases:
  "\<not> isSpinning s \<Longrightarrow>
   (snd (spin_start h s) \<and> isSpinning (fst (spin_start h s))) \<or>
   (\<not> snd (spin_start h s) \<and> \<not> isSpinning (fst (spin_start h s)))"
  by (simp add: spin_start_def emit_def Let_def split: option.splits)

lemma spin_resume_spinning:
  "isSpinning (fst (spin_resume h r now s))
     = (isSpinning s \<and> snd (spin_resume h r now s) \<noteq> None)"
  by (auto simp: spin_resume_def spin_catch_def emit_def Let_def animateSpin_def
      requestAnimationFrame_def split: fetch_result.splits sum.splits option.splits)

lemma animate_spinning:
  "isSpinning (fst (animate h a t s)) = (isSpinning s \<and> snd (animate h a t s) = NextFrame)"
  by (auto simp: animate_def Let_def drawWheel_ok requestAnimationFrame_def emit_def
      showResult_def formatPrize_def split: option.splits)

lemma timer_callback_spinning:
  "isSpinning (timer_callback sendOk closeOk p s) = isSpinning s"
  by (simp add: timer_callback_def emit_def Let_def)

lemma remove_nth_single: "length xs = 1 \<Longrightarrow> remove_nth 0 xs = []"
  by (cases xs) (simp_all add: remove_nth_def)

lemma spin_guard_step: "spin_guard sys \<Longrightarrow> spin_guard (step h sys ev)"
proof (cases ev)
  case Click
  assume i: "spin_guard sys"
  show ?thesis
  proof (cases "isSpinning (cl sys)")
    case True
    with i Click show ?thesis by (simp add: spin_start_busy)
  next
    case False
    with i have "inflight sys + length (frames sys) = 0" unfolding spin_guard_def by linarith
    then have z: "inflight sys = 0" "frames sys = []" by simp_all
    from spin_start_cases [OF False, of h] z Click show ?thesis
      by (cases "spin_start h (cl sys)") (auto simp: spin_guard_def)
  qed
next
  case (Response r now)
  assume i: "spin_guard sys"
  show ?thesis
  proof (cases "inflight sys = 0")
    case True
    with i Response show ?thesis by simp
  next
    case False
    with i have "inflight sys = 1 \<and> length (frames sys) = 0"
      unfolding spin_guard_def by linarith
    with i have z: "inflight sys = 1" "frames sys = []" "isSpinning (cl sys)"
      by (simp_all add: spin_guard_def)
    from spin_resume_spinning [of h r now "cl sys"] z Response show ?thesis
      by (cases "spin_resume h r now (cl sys)") (auto simp: spin_guard_def split: option.splits)
  qed
next
  case (Frame k now)
  assume i: "spin_guard sys"
  show ?thesis
  proof (cases "k < length (frames sys)")
    case False
    with i Frame show ?thesis by simp
  next
    case True
    with i have "inflight sys = 0 \<and> length (frames sys) = 1 \<and> k = 0"
      unfolding spin_guard_def by linarith
    with i have z: "inflight sys = 0" "length (frames sys) = 1" "k = 0" "isSpinning (cl sys)"
      by (simp_all add: spin_guard_def)
    from animate_spinning [of h "frames sys ! 0" now "cl sys"] z Frame show ?thesis
      by (cases "animate h (frames sys ! 0) now (cl sys)")
         (auto simp: spin_guard_def remove_nth_single split: scheduled.splits)
  qed
next
  case (TimerFires k sendOk closeOk)
  assume i: "spin_guard sys"
  with TimerFires show ?thesis
    by (simp add: spin_guard_def timer_callback_spinning)
qed

lemma spin_guard_initial: "spin_guard initial_system"
  by (simp add: spin_guard_def initial_system_def initial_client_def)

lemma spin_guard_foldl: "spin_guard sys \<Longrightarrow> spin_guard (foldl (step h) sys evs)"
  by (induction evs arbitrary: sys) (simp_all add: spin_guard_step)

lemma spin_guard_run: "spin_guard (run h initial_system evs)"
  unfolding run_def by (rule spin_guard_foldl [OF spin_guard_initial])

text \<open>
  Claim C7. In every state that the client reaches from its initial state, by any sequence
  of invocations of \<open>spin\<close>, settled requests, frames and timers, at most one request
  \<^verbatim>\<open>POST /api/spin\<close> or animation is pending, and \<open>isSpinning\<close> is set exactly while one is
  pending: from the moment \<open>spin\<close> sets it until an error path or the final frame clears
  it. While it is set, an invocation of \<open>spin\<close> returns at once and changes nothing: it
  issues no request, starts no animation and leaves the state as it is.
\<close>

theorem spin_single_flight:
  "(let sys = run h initial_system evs
    in spin_guard sys \<and> inflight sys \<le> 1 \<and> length (frames sys) \<le> 1 \<and>
       (isSpinning (cl sys) \<longrightarrow>
          step h sys Click = sys \<and> posts (cl (step h sys Click)) = posts (cl sys))) \<and>
   (isSpinning s \<longrightarrow> spin_start h s = (s, False))"
proof -
  have "step h sys Click = sys" if "isSpinning (cl sys)" for sys
    using that by (simp add: spin_start_busy)
  with spin_guard_run [of h evs] spin_start_busy [of s h] show ?thesis
    by (auto simp: spin_guard_def Let_def)
qed

theorem spin_single_flight_witness:
  "isSpinning (cl (run \<lparr>user_id = Some 42, hapticFeedback = True, toLocaleString = number_string\<rparr>
       initial_system [Click])) \<and>
   inflight (run \<lparr>user_id = Some 42, hapticFeedback = True, toLocaleString = number_string\<rparr>
       initial_system [Click]) = 1 \<and>
   step \<lparr>user_id = Some 42, hapticFeedback = True, toLocaleString = number_string\<rparr>
     (run \<lparr>user_id = Some 42, hapticFeedback = True, toLocaleString = number_string\<rparr>
        initial_system [Click]) Click
     = run \<lparr>user_id = Some 42, hapticFeedback = True, toLocaleString = number_string\<rparr>
        initial_system [Click]"
proof -
  have s: "isSpinning (cl (run \<lparr>user_id = Some 42, hapticFeedback = True, toLocaleString = number_string\<rparr>
       initial_system [Click]))"
    "inflight (run \<lparr>user_id = Some 42, hapticFeedback = True, toLocaleString = number_string\<rparr>
       initial_system [Click]) = 1"
    by (simp_all add: run_def spin_start_def initial_system_def initial_client_def emit_def)
  from spin_single_flight
    [of "\<lparr>user_id = Some 42, hapticFeedback = True, toLocaleString = number_string\<rparr>" "[Click]"]
    s
  show ?thesis by (simp add: Let_def)
qed

subsection \<open>A failed request\<close>

lemma spin_start_issued:
  "spin_start h s0 = (s, True) \<Longrightarrow>
   \<not> isSpinning s0 \<and>
   (\<exists>u. user_id h = Some u \<and> u \<noteq> 0 \<and>
        s = s0\<lparr>isSpinning := True, spinBtn_disabled := True, loading_hidden := False,
                trace := trace s0 @ (if hapticFeedback h then [HapticImpact] else [])
                           @ [FetchSpin u]\<rparr>)"
  by (auto simp: spin_start_def emit_def Let_def split: if_splits option.splits)

text \<open>
  Claim C9. Let \<open>spin\<close> have been invoked in the state \<open>s0\<close> and have issued its request, and
  let the request fail: \<^verbatim>\<open>fetch\<close> or the parsing of the body throws, or the response is not
  ok. Then no animation is started (no frame is requested, the wheel does not move),
  \<open>isSpinning\<close> is false again as it was before the call, the spin button is enabled and the
  loading indicator is hidden. For the response \<^verbatim>\<open>{"error": "Already spun", "prize": p}\<close>
  the formatted prize is displayed, the block that shows it is made visible, the spin
  button is hidden and the wheel is dimmed, and nothing else differs from \<open>s0\<close>. In every
  other case an alert is shown and the state is \<open>s0\<close> again, but for the trace, the enabled
  button and the hidden loading indicator.
\<close>

theorem spin_failure_restores:
  assumes "spin_start h s0 = (s, True)"
    and "r = Rejected \<or> (r = Resolved resp \<and> \<not> resp_ok resp)"
  shows "let s' = fst (spin_resume h r now s)
         in snd (spin_resume h r now s) = None \<and>
            frame_requests s' = frame_requests s0 \<and>
            canvas_spinning s' = canvas_spinning s0 \<and>
            currentAngle s' = currentAngle s0 \<and>
            \<not> isSpinning s0 \<and> \<not> isSpinning s' \<and>
            \<not> spinBtn_disabled s' \<and> loading_hidden s' \<and>
            (if r = Resolved resp \<and> data_error resp = Some ''Already spun''
                  \<and> data_prize resp \<noteq> None
             then formatPrize h (data_prize resp) = Inr (alreadySpunPrize_text s') \<and>
                  \<not> alreadySpun_hidden s' \<and> spinBtn_hidden s' \<and> canvas_dimmed s' \<and>
                  s' = s0\<lparr>spinBtn_disabled := False, loading_hidden := True,
                          alreadySpunPrize_text := alreadySpunPrize_text s',
                          alreadySpun_hidden := False, spinBtn_hidden := True,
                          canvas_dimmed := True, trace := trace s\<rparr>
             else (\<exists>m. trace s' = trace s @ [Alert m] \<or>
                       trace s' = trace s @ [ConsoleError, Alert m]) \<and>
                  s' = s0\<lparr>spinBtn_disabled := False, loading_hidden := True,
                          trace := trace s'\<rparr>)"
proof -
  from spin_start_issued [OF assms(1)] obtain u where
    s0: "\<not> isSpinning s0" and
    s: "s = s0\<lparr>isSpinning := True, spinBtn_disabled := True, loading_hidden := False,
                 trace := trace s0 @ (if hapticFeedback h then [HapticImpact] else [])
                            @ [FetchSpin u]\<rparr>"
    by blast
  from assms(2) show ?thesis
  proof
    assume "r = Rejected"
    then show ?thesis using s0
      by (simp add: s spin_resume_def spin_catch_def emit_def Let_def frame_requests_def)
  next
    assume r: "r = Resolved resp \<and> \<not> resp_ok resp"
    show ?thesis
    proof (cases "data_error resp = Some ''Already spun''")
      case False
      with r s0 show ?thesis
        by (simp add: s spin_resume_def emit_def Let_def frame_requests_def)
    next
      case True
      show ?thesis
      proof (cases "data_prize resp")
        case None
        with True r s0 show ?thesis
          by (simp add: s spin_resume_def spin_catch_def formatPrize_def emit_def Let_def
              frame_requests_def)
      next
        case (Some p)
        with True r s0 show ?thesis
          by (simp add: s spin_resume_def formatPrize_def emit_def Let_def frame_requests_def)
      qed
    qed
  qed
qed

theorem spin_failure_restores_witness:
  "spin_start \<lparr>user_id = Some 42, hapticFeedback = True, toLocaleString = number_string\<rparr>
     initial_client
     = (fst (spin_start \<lparr>user_id = Some 42, hapticFeedback = True, toLocaleString = number_string\<rparr>
          initial_client), True) \<and>
   \<not> isSpinning (fst (spin_resume
        \<lparr>user_id = Some 42, hapticFeedback = True, toLocaleString = number_string\<rparr>
        (Resolved \<lparr>resp_ok = False, data_error = Some ''Already spun'', data_prize = Some 15000\<rparr>)
        0
        (fst (spin_start \<lparr>user_id = Some 42, hapticFeedback = True, toLocaleString = number_string\<rparr>
          initial_client)))) \<and>
   spinBtn_hidden (fst (spin_resume
        \<lparr>user_id = Some 42, hapticFeedback = True, toLocaleString = number_string\<rparr>
        (Resolved \<lparr>resp_ok = False, data_error = Some ''Already spun'', data_prize = Some 15000\<rparr>)
        0
        (fst (spin_start \<lparr>user_id = Some 42, hapticFeedback = True, toLocaleString = number_string\<rparr>
          initial_client)))) \<and>
   \<not> spinBtn_disabled (fst (spin_resume
        \<lparr>user_id = Some 42, hapticFeedback = True, toLocaleString = number_string\<rparr>
        Rejected 0
        (fst (spin_start \<lparr>user_id = Some 42, hapticFeedback = True, toLocaleString = number_string\<rparr>
          initial_client)))) \<and>
   snd (spin_resume
        \<lparr>user_id = Some 42, hapticFeedback = True, toLocaleString = number_string\<rparr>
        Rejected 0
        (fst (spin_start \<lparr>user_id = Some 42, hapticFeedback = True, toLocaleString = number_string\<rparr>
          initial_client))) = None"
proof -
  let ?h = "\<lparr>user_id = Some 42, hapticFeedback = True, toLocaleString = number_string\<rparr>"
  let ?resp = "\<lparr>resp_ok = False, data_error = Some ''Already spun'', data_prize = Some 15000\<rparr>"
  have st: "spin_start ?h initial_client = (fst (spin_start ?h initial_client), True)"
    by (simp add: spin_start_def initial_client_def Let_def)
  have r1: "Resolved ?resp = Rejected \<or> (Resolved ?resp = Resolved ?resp \<and> \<not> resp_ok ?resp)"
    by simp
  have r2: "Rejected = Rejected \<or> (Rejected = Resolved ?resp \<and> \<not> resp_ok ?resp)"
    by simp
  from spin_failure_restores [OF st r1, of 0] spin_failure_restores [OF st r2, of 0] st
  show ?thesis by (simp add: Let_def)
qed

subsection \<open>Reporting the prize\<close>

lemma targetAngle_minus_one: "targetAngle (- 1) = - (pi / 3)"
  by (simp add: targetAngle_def segmentCenterAngle_def Let_def length_tables)

lemma totalRotation_minus_one: "totalRotation (- 1) = 5 * (2 * pi) + 5 * pi / 3"
proof -
  have p: "0 < 2 * pi" by simp
  have "js_rem (- (pi / 3)) (2 * pi) = - (pi / 3)"
    by (rule js_rem_small [OF p]) (use pi_gt_zero in linarith)+
  moreover have "js_rem (- (pi / 3) + 2 * pi) (2 * pi) = - (pi / 3) + 2 * pi"
    by (rule js_rem_small [OF p]) (use pi_gt_zero in linarith)+
  ultimately show ?thesis
    by (simp add: totalRotation_def normalizedTargetAngle_def targetAngle_minus_one)
qed





lemma animate_finished_timer:
  "\<not> progress_at a t < 1 \<Longrightarrow> anim_targetPrize a = Some p \<Longrightarrow>
   snd (animate h a t s) = Timeout (Some p)"
  by (simp add: animate_def Let_def drawWheel_ok showResult_def formatPrize_def)

lemma run_animation_timer:
  "\<exists>t\<in>set ts. \<not> progress_at a t < 1 \<Longrightarrow> anim_targetPrize a = Some p \<Longrightarrow>
   snd (run_animation h a ts s) = Timeout (Some p)"
proof (induction ts arbitrary: s)
  case Nil
  then show ?case by simp
next
  case (Cons t ts)
  show ?case
  proof (cases "progress_at a t < 1")
    case True
    with Cons.prems have "\<exists>t\<in>set ts. \<not> progress_at a t < 1" by auto
    from Cons.IH [OF this Cons.prems(2)] True show ?thesis
      by (simp add: run_animation_Cons_running del: run_animation.simps)
  next
    case False
    with Cons.prems(2) show ?thesis
      by (simp add: run_animation_Cons_finished animate_finished_timer del: run_animation.simps)
  qed
qed






lemma animateSpin_trace:
  "trace (fst (animateSpin prize t0 s)) = trace s @ [RequestFrame]"
  by (simp add: animateSpin_def requestAnimationFrame_def emit_def Let_def)

lemma animateSpin_closure:
  "anim_targetPrize (snd (animateSpin prize t0 s)) = prize"
  "anim_startTime (snd (animateSpin prize t0 s)) = t0"
  "anim_totalRotation (snd (animateSpin prize t0 s))
     = totalRotation (indexOf (map Some PRIZES) prize)"
  by (simp_all add: animateSpin_def Let_def)








subsection \<open>A prize that is not in the table\<close>

text \<open>
  Claim C3 fails as stated: the prize 7 is not in \<open>PRIZES\<close>, and \<open>animateSpin\<close> requests a
  frame all the same; the run completes, sets the timer for the prize 7 and stops at five
  turns plus \<open>5 * pi / 3\<close>, where the centre of the segment 5, the one of the prize 30000, is
  under the pointer.
\<close>

theorem animateSpin_unknown_prize_counterexample:
  "7 \<notin> set PRIZES \<and>
   trace (fst (animateSpin (Some 7) 0 initial_client)) = [RequestFrame] \<and>
   snd (run_animation \<lparr>user_id = Some 42, hapticFeedback = True, toLocaleString = number_string\<rparr>
          (snd (animateSpin (Some 7) 0 initial_client)) [4000]
          (fst (animateSpin (Some 7) 0 initial_client))) = Timeout (Some 7) \<and>
   currentAngle (fst (run_animation
          \<lparr>user_id = Some 42, hapticFeedback = True, toLocaleString = number_string\<rparr>
          (snd (animateSpin (Some 7) 0 initial_client)) [4000]
          (fst (animateSpin (Some 7) 0 initial_client)))) = 5 * (2 * pi) + 5 * pi / 3 \<and>
   seg_textAngle (canvas_wheel (fst (run_animation
          \<lparr>user_id = Some 42, hapticFeedback = True, toLocaleString = number_string\<rparr>
          (snd (animateSpin (Some 7) 0 initial_client)) [4000]
          (fst (animateSpin (Some 7) 0 initial_client)))) ! 5) = - pi / 2 + 2 * pi * 7 \<and>
   PRIZES ! 5 = 30000"
proof -
  let ?h = "\<lparr>user_id = Some 42, hapticFeedback = True, toLocaleString = number_string\<rparr>"
  let ?a = "snd (animateSpin (Some 7) 0 initial_client)"
  let ?s = "fst (animateSpin (Some 7) 0 initial_client)"
  have i: "indexOf (map Some PRIZES) (Some 7) = - 1"
    by (simp add: PRIZES_def indexOf_def)
  have a: "anim_targetPrize ?a = Some 7" "anim_startTime ?a = 0"
    "anim_totalRotation ?a = 5 * (2 * pi) + 5 * pi / 3"
    by (simp_all add: animateSpin_closure i totalRotation_minus_one)
  have ex: "\<exists>t\<in>set [4000]. \<not> progress_at ?a t < 1"
    by (simp add: progress_at_one a duration_def)
  note e = run_animation_end [OF ex, of ?h ?s]
  note t = run_animation_timer [OF ex a(1), of ?h ?s]
  have w: "seg_textAngle (projr (drawWheel ?h (5 * (2 * pi) + 5 * pi / 3)) ! 5)
             = - pi / 2 + 2 * pi * 7"
    by (simp add: drawWheel_ok length_tables)
  have "7 \<notin> set PRIZES" "PRIZES ! 5 = 30000" by (simp_all add: PRIZES_def)
  moreover have "trace ?s = [RequestFrame]"
    by (simp add: animateSpin_trace initial_client_def)
  ultimately show ?thesis using e t w by (simp only: a) simp
qed

text \<open>
  Claim C3, as the code has it. \<open>animateSpin\<close> has no failure: for every argument it marks
  the canvas as spinning, requests a frame and does nothing else. When the prize is absent
  from \<open>PRIZES\<close>, \<^verbatim>\<open>indexOf\<close> gives \<open>-1\<close>, the total rotation is five turns plus
  \<open>5 * pi / 3\<close>, and a run that reaches the end of the animation stops there, with the
  centre of the last segment under the pointer.
\<close>

theorem animateSpin_absent_prize_lands_last:
  "trace (fst (animateSpin targetPrize now s)) = trace s @ [RequestFrame] \<and>
   canvas_spinning (fst (animateSpin targetPrize now s)) \<and>
   anim_targetPrize (snd (animateSpin targetPrize now s)) = targetPrize \<and>
   (targetPrize \<notin> set (map Some PRIZES) \<longrightarrow>
      indexOf (map Some PRIZES) targetPrize = - 1 \<and>
      anim_totalRotation (snd (animateSpin targetPrize now s)) = 5 * (2 * pi) + 5 * pi / 3 \<and>
      ((\<exists>t\<in>set ts. duration \<le> real_of_int (t - now)) \<longrightarrow>
         snd (run_animation h (snd (animateSpin targetPrize now s)) ts
                (fst (animateSpin targetPrize now s))) \<noteq> NextFrame \<and>
         currentAngle (fst (run_animation h (snd (animateSpin targetPrize now s)) ts
                              (fst (animateSpin targetPrize now s))))
           = 5 * (2 * pi) + 5 * pi / 3 \<and>
         seg_textAngle (canvas_wheel (fst (run_animation h (snd (animateSpin targetPrize now s))
                                             ts (fst (animateSpin targetPrize now s))))
                          ! (length PRIZES - 1))
           = - pi / 2 + 2 * pi * 7))"
proof -
  let ?a = "snd (animateSpin targetPrize now s)"
  let ?s = "fst (animateSpin targetPrize now s)"
  have c: "canvas_spinning ?s"
    by (simp add: animateSpin_def requestAnimationFrame_def emit_def Let_def)
  have absent: "indexOf (map Some PRIZES) targetPrize = - 1 \<and>
      anim_totalRotation ?a = 5 * (2 * pi) + 5 * pi / 3 \<and>
      ((\<exists>t\<in>set ts. duration \<le> real_of_int (t - now)) \<longrightarrow>
         snd (run_animation h ?a ts ?s) \<noteq> NextFrame \<and>
         currentAngle (fst (run_animation h ?a ts ?s)) = 5 * (2 * pi) + 5 * pi / 3 \<and>
         seg_textAngle (canvas_wheel (fst (run_animation h ?a ts ?s)) ! (length PRIZES - 1))
           = - pi / 2 + 2 * pi * 7)"
    if "targetPrize \<notin> set (map Some PRIZES)"
  proof -
    have i: "indexOf (map Some PRIZES) targetPrize = - 1"
      by (rule indexOf_absent [OF that])
    have a: "anim_startTime ?a = now" "anim_totalRotation ?a = 5 * (2 * pi) + 5 * pi / 3"
      by (simp_all add: animateSpin_closure i totalRotation_minus_one)
    have w: "seg_textAngle (projr (drawWheel h (5 * (2 * pi) + 5 * pi / 3)) ! (length PRIZES - 1))
               = - pi / 2 + 2 * pi * 7"
      by (simp add: drawWheel_ok length_tables)
    have "snd (run_animation h ?a ts ?s) \<noteq> NextFrame \<and>
         currentAngle (fst (run_animation h ?a ts ?s)) = 5 * (2 * pi) + 5 * pi / 3 \<and>
         seg_textAngle (canvas_wheel (fst (run_animation h ?a ts ?s)) ! (length PRIZES - 1))
           = - pi / 2 + 2 * pi * 7"
      if "\<exists>t\<in>set ts. duration \<le> real_of_int (t - now)"
    proof -
      from that have ex: "\<exists>t\<in>set ts. \<not> progress_at ?a t < 1"
        by (simp add: progress_at_one a)
      from run_animation_end [OF ex, of h ?s] w show ?thesis
        by (simp only: a) simp
    qed
    with i a show ?thesis by blast
  qed
  from c absent show ?thesis
    by (simp only: animateSpin_trace animateSpin_closure) blast
qed

theorem animateSpin_absent_prize_lands_last_witness:
  "Some 7 \<notin> set (map Some PRIZES) \<and>
   (\<exists>t\<in>set [1000, 4000]. duration \<le> real_of_int (t - 0)) \<and>
   trace (fst (animateSpin (Some 7) 0 initial_client)) = [RequestFrame] \<and>
   currentAngle (fst (run_animation
       \<lparr>user_id = Some 42, hapticFeedback = True, toLocaleString = number_string\<rparr>
       (snd (animateSpin (Some 7) 0 initial_client)) [1000, 4000]
       (fst (animateSpin (Some 7) 0 initial_client)))) = 5 * (2 * pi) + 5 * pi / 3"
proof -
  have p: "Some 7 \<notin> set (map Some PRIZES)" by (simp add: PRIZES_def)
  have t: "\<exists>t\<in>set [1000, 4000]. duration \<le> real_of_int (t - 0)"
    by (simp add: duration_def)
  note th = animateSpin_absent_prize_lands_last
    [of "Some 7" 0 initial_client "[1000, 4000]"
        "\<lparr>user_id = Some 42, hapticFeedback = True, toLocaleString = number_string\<rparr>"]
  from th have "trace (fst (animateSpin (Some 7) 0 initial_client))
      = trace initial_client @ [RequestFrame]"
    by (rule conjunct1)
  then have tr: "trace (fst (animateSpin (Some 7) 0 initial_client)) = [RequestFrame]"
    by (simp add: initial_client_def)
  from th p t have "currentAngle (fst (run_animation
       \<lparr>user_id = Some 42, hapticFeedback = True, toLocaleString = number_string\<rparr>
       (snd (animateSpin (Some 7) 0 initial_client)) [1000, 4000]
       (fst (animateSpin (Some 7) 0 initial_client)))) = 5 * (2 * pi) + 5 * pi / 3"
    by blast
  with p t tr show ?thesis by blast
qed

subsection \<open>The award service under concurrent calls\<close>

lemma filter_update_length:
  "i < length xs \<Longrightarrow>
   length (filter P (xs[i := v])) + (if P (xs ! i) then 1 else 0)
     = length (filter P xs) + (if P v then 1 else 0)"
proof (induction xs arbitrary: i)
  case Nil
  then show ?case by simp
next
  case (Cons x xs)
  show ?case
  proof (cases i)
    case 0
    then show ?thesis by simp
  next
    case (Suc j)
    with Cons.prems have "j < length xs" by simp
    from Cons.IH [OF this] Suc show ?thesis by simp
  qed
qed

lemma set_update_cases:
  "c \<in> set (xs[i := v]) \<Longrightarrow> c = v \<or> c \<in> set xs"
  using set_update_subset_insert [of xs i v] by auto

lemma stored_prize_None: "records_of u st = [] \<Longrightarrow> stored_prize u st = None"
  by (simp add: stored_prize_def)

lemma stored_prize_Some: "records_of u st \<noteq> [] \<Longrightarrow> \<exists>p. stored_prize u st = Some p"
  by (cases "records_of u st") (simp_all add: stored_prize_def)

lemma award_step_calls_length:
  "length (srv_calls (award_step u srv i)) = length (srv_calls srv)"
  by (simp add: award_step_def insert_unique_def split: call.splits option.splits)

lemma award_inv_step:
  assumes "award_inv u rolls srv"
  shows "award_inv u rolls (award_step u srv i)"
proof (cases "i < length (srv_calls srv)")
  case False
  with assms show ?thesis by (simp add: award_step_def)
next
  case True
  then have mem: "srv_calls srv ! i \<in> set (srv_calls srv)" by simp
  from assms have
    one: "length (records_of u (srv_store srv)) \<le> 1" and
    calls: "\<And>c. c \<in> set (srv_calls srv) \<Longrightarrow>
        call_ok u rolls (srv_store srv) c" and
    recs: "\<And>r. r \<in> set (records_of u (srv_store srv)) \<Longrightarrow> prize_amount r \<in> set rolls" and
    cnt: "length (filter awarded (srv_calls srv)) = length (records_of u (srv_store srv))"
    by (auto simp: award_inv_def)
  show ?thesis
  proof (cases "srv_calls srv ! i")
    case (Returned r)
    with True assms show ?thesis by (simp add: award_step_def)
  next
    case Refused
    from calls [OF mem] Refused have ne: "records_of u (srv_store srv) \<noteq> []" by simp
    then obtain p where p: "stored_prize u (srv_store srv) = Some p"
      using stored_prize_Some by blast
    have st: "award_step u srv i =
        srv\<lparr>srv_calls := (srv_calls srv)[i := Returned (AlreadySpun p)],
            srv_clock := Suc (srv_clock srv)\<rparr>"
      using True Refused p by (simp add: award_step_def)
    have c': "call_ok u rolls (srv_store srv) c"
      if "c \<in> set ((srv_calls srv)[i := Returned (AlreadySpun p)])" for c
      using set_update_cases [OF that] calls p by auto
    have "length (filter awarded ((srv_calls srv)[i := Returned (AlreadySpun p)]))
        = length (filter awarded (srv_calls srv))"
      using filter_update_length [OF True, of awarded "Returned (AlreadySpun p)"] Refused
      by simp
    with one recs cnt c' show ?thesis
      unfolding st award_inv_def by simp
  next
    case (Rolled p)
    from calls [OF mem] Rolled have pin: "p \<in> set rolls" by simp
    show ?thesis
    proof (cases "records_of u (srv_store srv) = []")
      case False
      have st: "award_step u srv i =
          srv\<lparr>srv_calls := (srv_calls srv)[i := Refused],
              srv_clock := Suc (srv_clock srv)\<rparr>"
        using True Rolled False by (simp add: award_step_def insert_unique_def)
      have c': "call_ok u rolls (srv_store srv) c"
        if "c \<in> set ((srv_calls srv)[i := Refused])" for c
        using set_update_cases [OF that] calls False by auto
      have "length (filter awarded ((srv_calls srv)[i := Refused]))
          = length (filter awarded (srv_calls srv))"
        using filter_update_length [OF True, of awarded Refused] Rolled by simp
      with one recs cnt c' show ?thesis
        unfolding st award_inv_def by simp
    next
      case empty: True
      let ?r = "\<lparr>rec_user_id = u, prize_amount = p, spun_at = srv_clock srv\<rparr>"
      have st: "award_step u srv i =
          srv\<lparr>srv_store := srv_store srv @ [?r],
              srv_calls := (srv_calls srv)[i := Returned (Awarded p)],
              srv_clock := Suc (srv_clock srv)\<rparr>"
        using True Rolled empty by (simp add: award_step_def insert_unique_def)
      have rs: "records_of u (srv_store srv @ [?r]) = [?r]"
        using empty by (simp add: records_of_def)
      have sp: "stored_prize u (srv_store srv @ [?r]) = Some p"
        by (simp add: stored_prize_def rs)
      have old: "\<exists>q. c = Rolled q \<and> q \<in> set rolls"
        if "c \<in> set (srv_calls srv)" for c
        using calls [OF that] empty by (cases c) (simp_all add: stored_prize_None)
      have c': "call_ok u rolls (srv_store srv @ [?r]) c"
        if "c \<in> set ((srv_calls srv)[i := Returned (Awarded p)])" for c
      proof -
        from set_update_cases [OF that] show ?thesis
        proof
          assume "c = Returned (Awarded p)"
          then show ?thesis by (simp add: sp)
        next
          assume "c \<in> set (srv_calls srv)"
          from old [OF this] show ?thesis by auto
        qed
      qed
      have "length (filter awarded ((srv_calls srv)[i := Returned (Awarded p)]))
          = length (filter awarded (srv_calls srv)) + 1"
        using filter_update_length [OF True, of awarded "Returned (Awarded p)"] Rolled by simp
      with cnt empty pin c' show ?thesis
        unfolding st award_inv_def by (simp add: rs)
    qed
  qed
qed

lemma award_inv_initial:
  "records_of u st = [] \<Longrightarrow> award_inv u rolls (award_calls st now rolls)"
  by (auto simp: award_inv_def award_calls_def filter_empty_conv)

lemma award_run_Cons: "award_run u srv (i # sched) = award_run u (award_step u srv i) sched"
  by (simp add: award_run_def)

lemma award_inv_run:
  "award_inv u rolls srv \<Longrightarrow> award_inv u rolls (award_run u srv sched)"
proof (induction sched arbitrary: srv)
  case Nil
  then show ?case by (simp add: award_run_def)
next
  case (Cons i sched)
  from Cons.IH [OF award_inv_step [OF Cons.prems]] show ?case
    by (simp only: award_run_Cons)
qed

lemma award_run_calls_length:
  "length (srv_calls (award_run u srv sched)) = length (srv_calls srv)"
  by (induction sched arbitrary: srv) (simp_all add: award_run_def award_step_calls_length)

lemma call_rank_le: "call_rank c \<le> 2"
  by (cases c) simp_all

lemma call_rank_returned: "call_rank c = 2 \<longleftrightarrow> returned c"
  by (cases c) simp_all

lemma award_step_rank:
  assumes "award_inv u rolls srv" and "j < length (srv_calls srv)"
  shows "(if j = i then min 2 (Suc (call_rank (srv_calls srv ! j)))
          else call_rank (srv_calls srv ! j))
         \<le> call_rank (srv_calls (award_step u srv i) ! j)"
proof (cases "j = i")
  case False
  then show ?thesis
    by (simp add: award_step_def insert_unique_def split: call.splits option.splits)
next
  case True
  with assms(2) have i: "i < length (srv_calls srv)" by simp
  then have mem: "srv_calls srv ! i \<in> set (srv_calls srv)" by simp
  show ?thesis
  proof (cases "srv_calls srv ! i")
    case (Rolled p)
    with True i show ?thesis
      by (simp add: award_step_def insert_unique_def)
  next
    case Refused
    from assms(1) mem Refused have "records_of u (srv_store srv) \<noteq> []"
      by (auto simp: award_inv_def)
    then obtain p where "stored_prize u (srv_store srv) = Some p"
      using stored_prize_Some by blast
    with True i Refused show ?thesis by (simp add: award_step_def)
  next
    case (Returned r)
    with True i show ?thesis by (simp add: award_step_def)
  qed
qed

lemma award_run_rank:
  "award_inv u rolls srv \<Longrightarrow> j < length (srv_calls srv) \<Longrightarrow>
   min 2 (call_rank (srv_calls srv ! j) + count_list sched j)
     \<le> call_rank (srv_calls (award_run u srv sched) ! j)"
proof (induction sched arbitrary: srv)
  case Nil
  then show ?case by (simp add: award_run_def)
next
  case (Cons i sched)
  let ?srv = "award_step u srv i"
  have inv': "award_inv u rolls ?srv" by (rule award_inv_step [OF Cons.prems(1)])
  have j': "j < length (srv_calls ?srv)"
    using Cons.prems(2) by (simp add: award_step_calls_length)
  note ih = Cons.IH [OF inv' j']
  note st = award_step_rank [OF Cons.prems, of i]
  show ?case
  proof (cases "j = i")
    case True
    with st have "min 2 (Suc (call_rank (srv_calls srv ! j))) \<le> call_rank (srv_calls ?srv ! j)"
      by simp
    with ih True show ?thesis
      unfolding award_run_Cons by simp
  next
    case False
    with st have "call_rank (srv_calls srv ! j) \<le> call_rank (srv_calls ?srv ! j)"
      by simp
    with ih False show ?thesis
      unfolding award_run_Cons by simp
  qed
qed

lemma award_run_others:
  "filter (\<lambda>r. rec_user_id r \<noteq> u) (srv_store (award_run u srv sched))
     = filter (\<lambda>r. rec_user_id r \<noteq> u) (srv_store srv)"
proof (induction sched arbitrary: srv)
  case Nil
  show ?case by (simp add: award_run_def)
next
  case (Cons i sched)
  have "filter (\<lambda>r. rec_user_id r \<noteq> u) (srv_store (award_step u srv i))
      = filter (\<lambda>r. rec_user_id r \<noteq> u) (srv_store srv)"
    by (simp add: award_step_def insert_unique_def split: call.splits option.splits)
  with Cons.IH [of "award_step u srv i"] show ?case
    unfolding award_run_Cons by simp
qed

text \<open>
  Claim C2. Let \<open>N\<close> calls of \<open>AwardSpin\<close> for the same user, who has no record yet, run
  concurrently, each with its own rolled prize, in any interleaving of their atomic
  steps. Then at every moment the store holds at most one record of that user, and as
  many calls have been awarded as there are such records; every call that has returned
  returns the prize of that one record, which is one of the rolled prizes; the records of
  other users are untouched; every call returns once it has been scheduled twice; and
  when all of the \<open>N \<ge> 1\<close> calls have returned, exactly one record has been created.
\<close>

theorem award_spin_once:
  assumes "records_of u st = []"
  shows "let srv = award_run u (award_calls st now rolls) schedule
         in length (srv_calls srv) = length rolls \<and>
            length (records_of u (srv_store srv)) \<le> 1 \<and>
            length (filter awarded (srv_calls srv)) = length (records_of u (srv_store srv)) \<and>
            filter (\<lambda>r. rec_user_id r \<noteq> u) (srv_store srv)
              = filter (\<lambda>r. rec_user_id r \<noteq> u) st \<and>
            (\<forall>c\<in>set (srv_calls srv). returned c \<longrightarrow>
               (\<exists>r. records_of u (srv_store srv) = [r] \<and>
                    call_prize c = Some (prize_amount r) \<and> prize_amount r \<in> set rolls)) \<and>
            ((\<forall>i<length rolls. 2 \<le> count_list schedule i) \<longrightarrow>
               (\<forall>c\<in>set (srv_calls srv). returned c)) \<and>
            (rolls \<noteq> [] \<and> (\<forall>c\<in>set (srv_calls srv). returned c) \<longrightarrow>
               length (records_of u (srv_store srv)) = 1)"
proof -
  define srv where "srv = award_run u (award_calls st now rolls) schedule"
  have inv0: "award_inv u rolls (award_calls st now rolls)"
    by (rule award_inv_initial [OF assms])
  have inv: "award_inv u rolls srv"
    unfolding srv_def by (rule award_inv_run [OF inv0])
  have len: "length (srv_calls srv) = length rolls"
    unfolding srv_def by (simp add: award_run_calls_length award_calls_def)
  have one: "length (records_of u (srv_store srv)) \<le> 1"
    and cnt: "length (filter awarded (srv_calls srv)) = length (records_of u (srv_store srv))"
    using inv by (simp_all add: award_inv_def)
  have others: "filter (\<lambda>r. rec_user_id r \<noteq> u) (srv_store srv)
      = filter (\<lambda>r. rec_user_id r \<noteq> u) st"
    unfolding srv_def by (simp add: award_run_others award_calls_def)
  have ret: "\<exists>r. records_of u (srv_store srv) = [r] \<and>
      call_prize c = Some (prize_amount r) \<and> prize_amount r \<in> set rolls"
    if c: "c \<in> set (srv_calls srv)" and r: "returned c" for c
  proof -
    from r obtain res where res: "c = Returned res" by (cases c) simp_all
    with inv c have sp: "stored_prize u (srv_store srv) = Some (result_prize res)"
      by (auto simp: award_inv_def)
    then obtain x xs where x: "records_of u (srv_store srv) = x # xs"
      by (cases "records_of u (srv_store srv)") (simp_all add: stored_prize_def)
    with one have xs: "xs = []" by simp
    from sp x have "prize_amount x = result_prize res" by (simp add: stored_prize_def)
    moreover from inv x have "prize_amount x \<in> set rolls" by (simp add: award_inv_def)
    ultimately show ?thesis using x xs res by simp
  qed
  have prog: "\<forall>c\<in>set (srv_calls srv). returned c"
    if fair: "\<forall>i<length rolls. 2 \<le> count_list schedule i"
  proof
    fix c assume "c \<in> set (srv_calls srv)"
    then obtain j where j: "j < length (srv_calls srv)" "c = srv_calls srv ! j"
      by (auto simp: in_set_conv_nth)
    with len fair have two: "2 \<le> count_list schedule j" by simp
    have j0: "j < length (srv_calls (award_calls st now rolls))"
      using j len by (simp add: award_calls_def)
    from award_run_rank [OF inv0 j0, of schedule] two
    have "2 \<le> call_rank (srv_calls srv ! j)" unfolding srv_def by simp
    with call_rank_le [of "srv_calls srv ! j"] have "call_rank (srv_calls srv ! j) = 2"
      by simp
    with j show "returned c" by (simp add: call_rank_returned)
  qed
  have ex1: "length (records_of u (srv_store srv)) = 1"
    if "rolls \<noteq> []" and all: "\<forall>c\<in>set (srv_calls srv). returned c"
  proof -
    from that(1) len have "srv_calls srv \<noteq> []" by auto
    then obtain c where c: "c \<in> set (srv_calls srv)" by (cases "srv_calls srv") auto
    with all have "returned c" by simp
    from ret [OF c this] show ?thesis by auto
  qed
  from len one cnt others ret prog ex1 show ?thesis
    unfolding Let_def srv_def [symmetric] by blast
qed

theorem award_spin_once_witness:
  "records_of 42 [\<lparr>rec_user_id = 7, prize_amount = 10000, spun_at = 3\<rparr>] = [] \<and>
   map (count_list [1, 0, 2, 0, 2, 1 :: nat]) [0, 1, 2] = [2, 2, 2] \<and>
   map call_prize (srv_calls (award_run 42
       (award_calls [\<lparr>rec_user_id = 7, prize_amount = 10000, spun_at = 3\<rparr>] 10
          [15000, 5000, 30000]) [1, 0, 2, 0, 2, 1]))
     = [Some 5000, Some 5000, Some 5000] \<and>
   length (filter returned (srv_calls (award_run 42
       (award_calls [\<lparr>rec_user_id = 7, prize_amount = 10000, spun_at = 3\<rparr>] 10
          [15000, 5000, 30000]) [1, 0, 2, 0, 2, 1]))) = 3 \<and>
   length (records_of 42 (srv_store (award_run 42
       (award_calls [\<lparr>rec_user_id = 7, prize_amount = 10000, spun_at = 3\<rparr>] 10
          [15000, 5000, 30000]) [1, 0, 2, 0, 2, 1]))) = 1"
proof -
  let ?st = "[\<lparr>rec_user_id = 7, prize_amount = 10000, spun_at = 3\<rparr>]"
  let ?srv = "award_run 42 (award_calls ?st 10 [15000, 5000, 30000]) [1, 0, 2, 0, 2, 1]"
  have e: "records_of 42 ?st = []" by (simp add: records_of_def)
  have m: "map (count_list [1, 0, 2, 0, 2, 1 :: nat]) [0, 1, 2] = [2, 2, 2]" by simp
  have f: "\<forall>i<length [15000, 5000, 30000 :: int]. 2 \<le> count_list [1, 0, 2, 0, 2, 1 :: nat] i"
    by (simp add: less_Suc_eq numeral_3_eq_3)
  have c: "map call_prize (srv_calls ?srv) = [Some 5000, Some 5000, Some 5000]"
    by (simp add: award_run_def award_calls_def award_step_def insert_unique_def
        records_of_def stored_prize_def numeral_2_eq_2)
  note th = award_spin_once [OF e, of 10 "[15000, 5000, 30000]" "[1, 0, 2, 0, 2, 1]"]
  from th have l: "length (srv_calls ?srv) = 3"
    unfolding Let_def by simp
  from th f have r: "\<forall>c\<in>set (srv_calls ?srv). returned c"
    unfolding Let_def by blast
  then have "filter returned (srv_calls ?srv) = srv_calls ?srv" by simp
  with l have n: "length (filter returned (srv_calls ?srv)) = 3" by simp
  from th r have "length (records_of 42 (srv_store ?srv)) = 1"
    unfolding Let_def by blast
  with e m c n show ?thesis by blast
qed

end
